theory Spec2Isabelle
  imports Main "HOL-Library.Word"
begin

unbundle bit_operations_syntax

section \<open>Machine words and failures\<close>

text \<open>
  The allocator computes on \<open>uptr\<close>, the unsigned machine word; the model fixes it to
  64 bits. Addition, subtraction and multiplication wrap around, as in the source.
  A failed \<open>CHECK\<close> aborts the process; an access to memory that holds no object and a
  remainder by zero are the other ways an operation can fail to return.
\<close>

type_synonym uptr = "64 word"

datatype error = CheckFailed | BadAccess | DivisionByZero

section \<open>SplineSizeClassMap\<close>

text \<open>
  The sixteen template parameters of \<open>SplineSizeClassMap\<close>. The class boundaries
  \<open>u0 .. u4\<close> are compile-time constants derived from them. A step of zero does not
  instantiate in C++ (division by zero in a constant expression); every statement below
  is about parameter sets whose steps are powers of two.
\<close>

record SplineParams =
  l0 :: uptr
  l1 :: uptr
  l2 :: uptr
  l3 :: uptr
  l4 :: uptr
  l5 :: uptr
  s0 :: uptr
  s1 :: uptr
  s2 :: uptr
  s3 :: uptr
  s4 :: uptr
  c0 :: uptr
  c1 :: uptr
  c2 :: uptr
  c3 :: uptr
  c4 :: uptr

definition u0 :: "SplineParams \<Rightarrow> uptr" where
  "u0 P = 0 + (l1 P - l0 P) div s0 P"

definition u1 :: "SplineParams \<Rightarrow> uptr" where
  "u1 P = u0 P + (l2 P - l1 P) div s1 P"

definition u2 :: "SplineParams \<Rightarrow> uptr" where
  "u2 P = u1 P + (l3 P - l2 P) div s2 P"

definition u3 :: "SplineParams \<Rightarrow> uptr" where
  "u3 P = u2 P + (l4 P - l3 P) div s3 P"

definition u4 :: "SplineParams \<Rightarrow> uptr" where
  "u4 P = u3 P + (l5 P - l4 P) div s4 P"

definition kNumClasses :: "SplineParams \<Rightarrow> uptr" where
  "kNumClasses P = u4 P + 1"

definition kMaxSize :: "SplineParams \<Rightarrow> uptr" where
  "kMaxSize P = l5 P"

definition kMinSize :: "SplineParams \<Rightarrow> uptr" where
  "kMinSize P = l0 P"

definition Size :: "SplineParams \<Rightarrow> uptr \<Rightarrow> uptr" where
  "Size P class_id =
     (if class_id \<le> u0 P then l0 P + s0 P * (class_id - 0)
      else if class_id \<le> u1 P then l1 P + s1 P * (class_id - u0 P)
      else if class_id \<le> u2 P then l2 P + s2 P * (class_id - u1 P)
      else if class_id \<le> u3 P then l3 P + s3 P * (class_id - u2 P)
      else if class_id \<le> u4 P then l4 P + s4 P * (class_id - u3 P)
      else 0)"

definition ClassID :: "SplineParams \<Rightarrow> uptr \<Rightarrow> uptr" where
  "ClassID P sz =
     (if sz \<le> l1 P then 0 + (sz - l0 P + s0 P - 1) div s0 P
      else if sz \<le> l2 P then u0 P + (sz - l1 P + s1 P - 1) div s1 P
      else if sz \<le> l3 P then u1 P + (sz - l2 P + s2 P - 1) div s2 P
      else if sz \<le> l4 P then u2 P + (sz - l3 P + s3 P - 1) div s3 P
      else if sz \<le> l5 P then u3 P + (sz - l4 P + s4 P - 1) div s4 P
      else 0)"

definition MaxCached :: "SplineParams \<Rightarrow> uptr \<Rightarrow> uptr" where
  "MaxCached P class_id =
     (if class_id \<le> u0 P then c0 P
      else if class_id \<le> u1 P then c1 P
      else if class_id \<le> u2 P then c2 P
      else if class_id \<le> u3 P then c3 P
      else if class_id \<le> u4 P then c4 P
      else 0)"

text \<open>The two instantiations of the source.\<close>

definition DefaultSizeClassMap :: SplineParams where
  "DefaultSizeClassMap =
     \<lparr>l0 = push_bit 4 1, l1 = push_bit 9 1, l2 = push_bit 12 1,
      l3 = push_bit 15 1, l4 = push_bit 18 1, l5 = push_bit 21 1,
      s0 = push_bit 4 1, s1 = push_bit 6 1, s2 = push_bit 9 1,
      s3 = push_bit 12 1, s4 = push_bit 15 1,
      c0 = 256, c1 = 64, c2 = 16, c3 = 4, c4 = 1\<rparr>"

definition CompactSizeClassMap :: SplineParams where
  "CompactSizeClassMap =
     \<lparr>l0 = push_bit 3 1, l1 = push_bit 4 1, l2 = push_bit 7 1,
      l3 = push_bit 8 1, l4 = push_bit 12 1, l5 = push_bit 15 1,
      s0 = push_bit 3 1, s1 = push_bit 4 1, s2 = push_bit 7 1,
      s3 = push_bit 8 1, s4 = push_bit 12 1,
      c0 = 256, c1 = 64, c2 = 16, c3 = 4, c4 = 1\<rparr>"

text \<open>
  The parameter invariants the source's comments ask of an instantiation: the segment
  bounds increase strictly, every step is a power of two, and every segment is a whole
  number of steps long.
\<close>

definition pow2 :: "uptr \<Rightarrow> bool" where
  "pow2 x = (\<exists>k \<in> {0..<64}. x = 2 ^ k)"

definition segment_ok :: "uptr \<Rightarrow> uptr \<Rightarrow> uptr \<Rightarrow> bool" where
  "segment_ok lo hi step = (lo < hi \<and> pow2 step \<and> (hi - lo) mod step = 0)"

definition spline_ok :: "SplineParams \<Rightarrow> bool" where
  "spline_ok P =
     (segment_ok (l0 P) (l1 P) (s0 P) \<and> segment_ok (l1 P) (l2 P) (s1 P) \<and>
      segment_ok (l2 P) (l3 P) (s2 P) \<and> segment_ok (l3 P) (l4 P) (s3 P) \<and>
      segment_ok (l4 P) (l5 P) (s4 P))"

text \<open>
  The step of the segment a class lies in: segment \<open>k\<close> holds the classes
  \<open>u\<^bsub>k-1\<^esub> < c \<le> u\<^bsub>k\<^esub>\<close>, and class 0 lies in the first segment.
\<close>

definition segment_step :: "SplineParams \<Rightarrow> uptr \<Rightarrow> uptr" where
  "segment_step P class_id =
     (if class_id \<le> u0 P then s0 P
      else if class_id \<le> u1 P then s1 P
      else if class_id \<le> u2 P then s2 P
      else if class_id \<le> u3 P then s3 P
      else s4 P)"

section \<open>Helpers of sanitizer\_common\<close>

text \<open>
  Modelled from the spec: \<open>IsPowerOfTwo\<close> is declared in sanitizer\_common.h, which is
  not among the sources. The allocator requires its alignment to be a power of two.
\<close>

definition IsPowerOfTwo :: "uptr \<Rightarrow> bool" where
  "IsPowerOfTwo x = (x \<noteq> 0 \<and> x AND (x - 1) = 0)"

text \<open>
  Modelled from the spec: \<open>RoundUpTo\<close> is declared in sanitizer\_common.h, which is not
  among the sources. It rounds a size up to the next multiple of a power-of-two boundary,
  in machine arithmetic.
\<close>

definition RoundUpTo :: "uptr \<Rightarrow> uptr \<Rightarrow> uptr" where
  "RoundUpTo sz boundary = (sz + boundary - 1) AND NOT (boundary - 1)"

section \<open>LargeMmapAllocator\<close>

text \<open>
  A header sits in the first page of its mapping. The fields \<open>size\<close> and \<open>next\<close> of the
  source are \<open>size'\<close> and \<open>next'\<close> here; pointers are addresses, and 0 is the null pointer.
\<close>

record Header =
  map_beg :: uptr
  map_size :: uptr
  size' :: uptr
  next' :: uptr
  prev :: uptr

text \<open>
  The allocator object (\<open>page_size_\<close> and \<open>list_\<close>; the trailing underscore is not a
  legal name here) together with the memory it works on: \<open>headers\<close> is the typed view
  of the header pages, a header being readable exactly where one was written into a live
  mapping, and \<open>mapped\<close> lists the live mappings \<open>(map_beg, map_size)\<close> obtained from
  the operating system. The spin mutex serialises the critical sections; a sequential
  model has no use for it.
\<close>

record LargeMmapAllocator =
  page_size :: uptr
  list_head :: uptr
  headers :: "uptr \<rightharpoonup> Header"
  mapped :: "(uptr \<times> uptr) list"

definition RoundUpMapSize :: "LargeMmapAllocator \<Rightarrow> uptr \<Rightarrow> uptr" where
  "RoundUpMapSize a sz = RoundUpTo sz (page_size a) + page_size a"

definition GetHeader :: "LargeMmapAllocator \<Rightarrow> uptr \<Rightarrow> error + uptr" where
  "GetHeader a p =
     (if page_size a = 0 then Inl DivisionByZero
      else if p mod page_size a \<noteq> 0 then Inl CheckFailed
      else Inr (p - page_size a))"

definition GetUser :: "LargeMmapAllocator \<Rightarrow> uptr \<Rightarrow> error + uptr" where
  "GetUser a h =
     (if page_size a = 0 then Inl DivisionByZero
      else if h mod page_size a \<noteq> 0 then Inl CheckFailed
      else Inr (h + page_size a))"

text \<open>
  \<open>Allocate\<close>, in the order of the source: the length of the mapping, the early return
  on overflow, the mapping itself, the aligned user address with its two checks, the
  header, and the splice at the head of the live list.
  The mapping primitive \<open>MmapOrDie\<close> belongs to the operating system: it is a
  parameter, giving the address of the fresh mapping for the requested length (it aborts
  the process rather than fail).
\<close>

definition Allocate_map_size :: "LargeMmapAllocator \<Rightarrow> uptr \<Rightarrow> uptr \<Rightarrow> uptr" where
  "Allocate_map_size a sz alignment =
     (let map_size0 = RoundUpMapSize a sz
      in if alignment > page_size a then map_size0 + alignment else map_size0)"

definition Allocate_res :: "LargeMmapAllocator \<Rightarrow> uptr \<Rightarrow> uptr \<Rightarrow> uptr" where
  "Allocate_res a beg alignment =
     (let res = beg + page_size a
      in if res AND (alignment - 1) \<noteq> 0
         then res + (alignment - (res AND (alignment - 1))) else res)"

definition Allocate_link ::
  "LargeMmapAllocator \<Rightarrow> uptr \<Rightarrow> Header \<Rightarrow> error + LargeMmapAllocator"
where
  "Allocate_link a h hdr =
     (let hs = (headers a)(h \<mapsto> hdr\<lparr>next' := list_head a, prev := 0\<rparr>)
      in if list_head a \<noteq> 0 then
           (case hs (list_head a) of
              None \<Rightarrow> Inl BadAccess
            | Some first \<Rightarrow>
                Inr (a\<lparr>headers := hs(list_head a \<mapsto> first\<lparr>prev := h\<rparr>), list_head := h\<rparr>))
         else Inr (a\<lparr>headers := hs, list_head := h\<rparr>))"

definition LargeMmapAllocator_Allocate ::
  "(uptr \<Rightarrow> uptr) \<Rightarrow> LargeMmapAllocator \<Rightarrow> uptr \<Rightarrow> uptr \<Rightarrow> error + (uptr \<times> LargeMmapAllocator)"
where
  "LargeMmapAllocator_Allocate MmapOrDie a sz alignment =
     (if \<not> IsPowerOfTwo alignment then Inl CheckFailed
      else
        let map_size1 = Allocate_map_size a sz alignment in
        if map_size1 < sz then Inr (0, a)
        else
          let map_beg1 = MmapOrDie map_size1;
              map_end = map_beg1 + map_size1;
              res = Allocate_res a map_beg1 alignment
          in
          if res AND (alignment - 1) \<noteq> 0 then Inl CheckFailed
          else if \<not> res + sz \<le> map_end then Inl CheckFailed
          else
            (case GetHeader a res of
               Inl e \<Rightarrow> Inl e
             | Inr h \<Rightarrow>
                 (case Allocate_link (a\<lparr>mapped := (map_beg1, map_size1) # mapped a\<rparr>) h
                         \<lparr>map_beg = map_beg1, map_size = map_size1, size' = sz,
                          next' = 0, prev = 0\<rparr> of
                    Inl e \<Rightarrow> Inl e
                  | Inr a' \<Rightarrow> Inr (res, a'))))"

text \<open>
  Modelled from the spec: \<open>UnmapOrDie\<close> is declared in sanitizer\_common.h, which is not
  among the sources. It returns a mapping to the operating system: the headers inside it
  are gone with it.
\<close>

definition UnmapOrDie :: "LargeMmapAllocator \<Rightarrow> uptr \<Rightarrow> uptr \<Rightarrow> LargeMmapAllocator" where
  "UnmapOrDie a beg len =
     a\<lparr>headers := (\<lambda>x. if x - beg < len then None else headers a x),
       mapped := remove1 (beg, len) (mapped a)\<rparr>"

definition LargeMmapAllocator_Deallocate ::
  "LargeMmapAllocator \<Rightarrow> uptr \<Rightarrow> error + LargeMmapAllocator"
where
  "LargeMmapAllocator_Deallocate a p =
     (case GetHeader a p of
        Inl e \<Rightarrow> Inl e
      | Inr h \<Rightarrow>
          (case headers a h of
             None \<Rightarrow> Inl BadAccess
           | Some hdr \<Rightarrow>
               let prev1 = prev hdr; next1 = next' hdr in
               (case (if prev1 \<noteq> 0
                      then (case headers a prev1 of
                              None \<Rightarrow> Inl BadAccess
                            | Some ph \<Rightarrow> Inr ((headers a)(prev1 \<mapsto> ph\<lparr>next' := next1\<rparr>)))
                      else Inr (headers a)) of
                  Inl e \<Rightarrow> Inl e
                | Inr hs1 \<Rightarrow>
                    (case (if next1 \<noteq> 0
                           then (case hs1 next1 of
                                   None \<Rightarrow> Inl BadAccess
                                 | Some nh \<Rightarrow> Inr (hs1(next1 \<mapsto> nh\<lparr>prev := prev1\<rparr>)))
                           else Inr hs1) of
                       Inl e \<Rightarrow> Inl e
                     | Inr hs2 \<Rightarrow>
                         let a1 = a\<lparr>headers := hs2,
                                    list_head := (if h = list_head a then next1 else list_head a)\<rparr>
                         in
                         (case hs2 h of
                            None \<Rightarrow> Inl BadAccess
                          | Some hdr2 \<Rightarrow> Inr (UnmapOrDie a1 (map_beg hdr2) (map_size hdr2)))))))"

text \<open>
  The loops over the live list follow \<open>next\<close> pointers until the null pointer. On a
  cyclic list they do not return: the result \<open>None\<close> stands for that.
\<close>

partial_function (option) TotalMemoryUsed_loop ::
  "LargeMmapAllocator \<Rightarrow> uptr \<Rightarrow> uptr \<Rightarrow> (error + uptr) option"
where
  "TotalMemoryUsed_loop a l res =
     (if l = 0 then Some (Inr res)
      else (case headers a l of
              None \<Rightarrow> Some (Inl BadAccess)
            | Some hdr \<Rightarrow> TotalMemoryUsed_loop a (next' hdr) (res + RoundUpMapSize a (size' hdr))))"

declare TotalMemoryUsed_loop.simps [code]

definition LargeMmapAllocator_TotalMemoryUsed ::
  "LargeMmapAllocator \<Rightarrow> (error + uptr) option"
where
  "LargeMmapAllocator_TotalMemoryUsed a = TotalMemoryUsed_loop a (list_head a) 0"

partial_function (option) PointerIsMine_loop ::
  "LargeMmapAllocator \<Rightarrow> uptr \<Rightarrow> uptr \<Rightarrow> (error + bool) option"
where
  "PointerIsMine_loop a l p =
     (if l = 0 then Some (Inr False)
      else (case GetUser a l of
              Inl e \<Rightarrow> Some (Inl e)
            | Inr u \<Rightarrow>
                if u = p then Some (Inr True)
                else (case headers a l of
                        None \<Rightarrow> Some (Inl BadAccess)
                      | Some hdr \<Rightarrow> PointerIsMine_loop a (next' hdr) p)))"

declare PointerIsMine_loop.simps [code]

definition LargeMmapAllocator_PointerIsMine ::
  "LargeMmapAllocator \<Rightarrow> uptr \<Rightarrow> (error + bool) option"
where
  "LargeMmapAllocator_PointerIsMine a p =
     (if p AND (page_size a - 1) \<noteq> 0 then Some (Inr False)
      else PointerIsMine_loop a (list_head a) p)"

definition LargeMmapAllocator_GetActuallyAllocatedSize ::
  "LargeMmapAllocator \<Rightarrow> uptr \<Rightarrow> error + uptr"
where
  "LargeMmapAllocator_GetActuallyAllocatedSize a p =
     (case GetHeader a p of
        Inl e \<Rightarrow> Inl e
      | Inr h \<Rightarrow>
          (case headers a h of
             None \<Rightarrow> Inl BadAccess
           | Some hdr \<Rightarrow> Inr (RoundUpMapSize a (size' hdr) - page_size a)))"

text \<open>
  The headers on the live list, in order: the chain from a pointer along \<open>next\<close> to the
  null pointer.
\<close>

fun live_list :: "(uptr \<rightharpoonup> Header) \<Rightarrow> uptr \<Rightarrow> Header list \<Rightarrow> bool" where
  "live_list hs p [] = (p = 0)"
| "live_list hs p (hdr # rest) = (p \<noteq> 0 \<and> hs p = Some hdr \<and> live_list hs (next' hdr) rest)"

text \<open>
  The length of a mapping as the spec computes it, in unbounded arithmetic: the size
  rounded up to whole pages, one page for the header, and the alignment as slack when it
  exceeds a page. The machine computation overflows when this does not fit the word.
\<close>

definition map_size_exact :: "LargeMmapAllocator \<Rightarrow> uptr \<Rightarrow> uptr \<Rightarrow> nat" where
  "map_size_exact a sz alignment =
     (unat sz + unat (page_size a) - 1) div unat (page_size a) * unat (page_size a)
     + unat (page_size a)
     + (if alignment > page_size a then unat alignment else 0)"

text \<open>The allocator after \<open>Init\<close> on 4096-byte pages, and one with a live block of one byte.\<close>

definition no_blocks :: LargeMmapAllocator where
  "no_blocks = \<lparr>page_size = 4096, list_head = 0, headers = Map.empty, mapped = []\<rparr>"


definition one_block :: LargeMmapAllocator where
  "one_block =
     \<lparr>page_size = 4096, list_head = 65536,
      headers = [65536 \<mapsto> \<lparr>map_beg = 65536, map_size = 8192, size' = 1, next' = 0, prev = 0\<rparr>],
      mapped = [(65536, 8192)]\<rparr>"


section \<open>The primary allocator\<close>

text \<open>
  The primary allocator is a template parameter of the cache and of the combined
  allocator, and no primary allocator is among the sources. Its operations are taken as
  parameters: a record of functions over the primary's own state \<open>'p\<close>. The operations
  that move chunks can abort; the list they are handed is returned as they leave it.
\<close>

record 'p PrimaryAllocator =
  SizeClassMapT :: SplineParams
  primary_kNumClasses :: uptr
  primary_CanAllocate :: "'p \<Rightarrow> uptr \<Rightarrow> uptr \<Rightarrow> bool"
  primary_ClassID :: "'p \<Rightarrow> uptr \<Rightarrow> uptr"
  primary_PointerIsMine :: "'p \<Rightarrow> uptr \<Rightarrow> bool"
  primary_GetSizeClass :: "'p \<Rightarrow> uptr \<Rightarrow> uptr"
  primary_GetActuallyAllocatedSize :: "'p \<Rightarrow> uptr \<Rightarrow> uptr"
  primary_BulkAllocate :: "'p \<Rightarrow> uptr \<Rightarrow> uptr list \<Rightarrow> error + (uptr list \<times> 'p)"
  primary_BulkDeallocate :: "'p \<Rightarrow> uptr \<Rightarrow> uptr list \<Rightarrow> error + (uptr list \<times> 'p)"

section \<open>SizeClassAllocatorLocalCache\<close>

text \<open>
  Modelled from the spec: \<open>IntrusiveList\<close> is declared in sanitizer\_list.h, which is
  not among the sources. A free list is the list of the addresses of its nodes, front
  first: \<open>push_front\<close> is \<open>#\<close>, \<open>size\<close> is the length, and \<open>pop_front\<close> of an empty list
  fails its check. The links between the nodes are kept in the list, not in the bytes of
  the freed chunks.
\<close>

type_synonym AllocatorFreeList = "uptr list"

text \<open>
  The cache is the array \<open>free_lists_\<close>, indexed by class id; every access is guarded by
  \<open>CHECK_LT(class_id, kNumClasses)\<close> or by the loop bound.
\<close>

record SizeClassAllocatorLocalCache =
  free_lists :: "uptr \<Rightarrow> AllocatorFreeList"

definition Cache_Init :: SizeClassAllocatorLocalCache where
  "Cache_Init = \<lparr>free_lists = (\<lambda>class_id. [])\<rparr>"

definition Cache_Allocate ::
  "'p PrimaryAllocator \<Rightarrow> SizeClassAllocatorLocalCache \<Rightarrow> 'p \<Rightarrow> uptr \<Rightarrow>
   error + (uptr \<times> SizeClassAllocatorLocalCache \<times> 'p)"
where
  "Cache_Allocate ops cache allocator class_id =
     (if \<not> class_id < primary_kNumClasses ops then Inl CheckFailed
      else
        (case (if free_lists cache class_id = []
               then primary_BulkAllocate ops allocator class_id (free_lists cache class_id)
               else Inr (free_lists cache class_id, allocator)) of
           Inl e \<Rightarrow> Inl e
         | Inr (free_list, allocator') \<Rightarrow>
             (case free_list of
                [] \<Rightarrow> Inl CheckFailed
              | res # rest \<Rightarrow>
                  Inr (res, cache\<lparr>free_lists := (free_lists cache)(class_id := rest)\<rparr>,
                       allocator'))))"

text \<open>The loop of \<open>DrainHalf\<close>: \<open>count\<close> times, pop the front node and push it on \<open>half\<close>.\<close>

fun DrainHalf_loop ::
  "nat \<Rightarrow> AllocatorFreeList \<Rightarrow> AllocatorFreeList \<Rightarrow> error + (AllocatorFreeList \<times> AllocatorFreeList)"
where
  "DrainHalf_loop 0 free_list half = Inr (free_list, half)"
| "DrainHalf_loop (Suc n) [] half = Inl CheckFailed"
| "DrainHalf_loop (Suc n) (node # rest) half = DrainHalf_loop n rest (node # half)"

definition DrainHalf ::
  "'p PrimaryAllocator \<Rightarrow> SizeClassAllocatorLocalCache \<Rightarrow> 'p \<Rightarrow> uptr \<Rightarrow>
   error + (SizeClassAllocatorLocalCache \<times> 'p)"
where
  "DrainHalf ops cache allocator class_id =
     (let count = (of_nat (length (free_lists cache class_id)) :: uptr) div 2 in
      case DrainHalf_loop (unat count) (free_lists cache class_id) [] of
        Inl e \<Rightarrow> Inl e
      | Inr (free_list, half) \<Rightarrow>
          (case primary_BulkDeallocate ops allocator class_id half of
             Inl e \<Rightarrow> Inl e
           | Inr (half', allocator') \<Rightarrow>
               Inr (cache\<lparr>free_lists := (free_lists cache)(class_id := free_list)\<rparr>,
                    allocator')))"

definition Cache_Deallocate ::
  "'p PrimaryAllocator \<Rightarrow> SizeClassAllocatorLocalCache \<Rightarrow> 'p \<Rightarrow> uptr \<Rightarrow> uptr \<Rightarrow>
   error + (SizeClassAllocatorLocalCache \<times> 'p)"
where
  "Cache_Deallocate ops cache allocator class_id p =
     (if \<not> class_id < primary_kNumClasses ops then Inl CheckFailed
      else
        let cache1 = cache\<lparr>free_lists :=
                       (free_lists cache)(class_id := p # free_lists cache class_id)\<rparr>
        in
        if (of_nat (length (free_lists cache1 class_id)) :: uptr)
             \<ge> 2 * MaxCached (SizeClassMapT ops) class_id
        then DrainHalf ops cache1 allocator class_id
        else Inr (cache1, allocator))"

text \<open>
  The loop of \<open>Drain\<close>, with the number of classes still to visit and the class \<open>i\<close>
  visited next.
\<close>

fun Drain_loop ::
  "'p PrimaryAllocator \<Rightarrow> nat \<Rightarrow> uptr \<Rightarrow> SizeClassAllocatorLocalCache \<Rightarrow> 'p \<Rightarrow>
   error + (SizeClassAllocatorLocalCache \<times> 'p)"
where
  "Drain_loop ops 0 i cache allocator = Inr (cache, allocator)"
| "Drain_loop ops (Suc n) i cache allocator =
     (case primary_BulkDeallocate ops allocator i (free_lists cache i) of
        Inl e \<Rightarrow> Inl e
      | Inr (free_list, allocator') \<Rightarrow>
          if free_list \<noteq> [] then Inl CheckFailed
          else Drain_loop ops n (i + 1)
                 (cache\<lparr>free_lists := (free_lists cache)(i := free_list)\<rparr>) allocator')"

definition Cache_Drain ::
  "'p PrimaryAllocator \<Rightarrow> SizeClassAllocatorLocalCache \<Rightarrow> 'p \<Rightarrow>
   error + (SizeClassAllocatorLocalCache \<times> 'p)"
where
  "Cache_Drain ops cache allocator =
     Drain_loop ops (unat (primary_kNumClasses ops)) 0 cache allocator"

text \<open>
  The states of a cache between public operations: the zero-initialised cache, and every
  cache a completed \<open>Allocate\<close>, \<open>Deallocate\<close> or \<open>Drain\<close> leaves, whatever state the
  primary was in at the call.
\<close>

inductive reachable :: "'p PrimaryAllocator \<Rightarrow> SizeClassAllocatorLocalCache \<Rightarrow> bool"
  for ops :: "'p PrimaryAllocator"
where
  init: "reachable ops Cache_Init"
| allocate: "reachable ops cache \<Longrightarrow>
     Cache_Allocate ops cache allocator class_id = Inr (res, cache', allocator') \<Longrightarrow>
     reachable ops cache'"
| deallocate: "reachable ops cache \<Longrightarrow>
     Cache_Deallocate ops cache allocator class_id p = Inr (cache', allocator') \<Longrightarrow>
     reachable ops cache'"
| drain: "reachable ops cache \<Longrightarrow>
     Cache_Drain ops cache allocator = Inr (cache', allocator') \<Longrightarrow>
     reachable ops cache'"

text \<open>
  What the cache needs of its parameters. Every class has a cap of at least one whose
  double fits the machine word, as the caps 256, 64, 16, 4, 1 of the instantiations do;
  and a refill of an empty list brings at most twice the cap of its class.
\<close>

definition caps_ok :: "'p PrimaryAllocator \<Rightarrow> bool" where
  "caps_ok ops =
     (\<forall>class_id. class_id < primary_kNumClasses ops \<longrightarrow>
        1 \<le> MaxCached (SizeClassMapT ops) class_id \<and>
        MaxCached (SizeClassMapT ops) class_id < 2 ^ 63)"

definition refill_ok :: "'p PrimaryAllocator \<Rightarrow> bool" where
  "refill_ok ops =
     (\<forall>allocator class_id free_list allocator'.
        class_id < primary_kNumClasses ops \<longrightarrow>
        primary_BulkAllocate ops allocator class_id [] = Inr (free_list, allocator') \<longrightarrow>
        length free_list \<le> 2 * unat (MaxCached (SizeClassMapT ops) class_id))"

definition cache_bounded :: "'p PrimaryAllocator \<Rightarrow> SizeClassAllocatorLocalCache \<Rightarrow> bool" where
  "cache_bounded ops cache =
     (\<forall>class_id. class_id < primary_kNumClasses ops \<longrightarrow>
        length (free_lists cache class_id)
          < 2 * unat (MaxCached (SizeClassMapT ops) class_id))"

text \<open>
  A small primary allocator for the examples, over \<open>DefaultSizeClassMap\<close>: class \<open>c\<close>
  owns the region of \<open>2\<^sup>3\<^sup>2\<close> bytes at \<open>2\<^sup>4\<^sup>0 + c * 2\<^sup>3\<^sup>2\<close>; a refill hands out one fresh
  chunk, the state counting the chunks handed out so far; chunks given back are dropped.
\<close>

definition bump_primary :: "uptr PrimaryAllocator" where
  "bump_primary =
     \<lparr>SizeClassMapT = DefaultSizeClassMap,
      primary_kNumClasses = kNumClasses DefaultSizeClassMap,
      primary_CanAllocate =
        (\<lambda>a sz alignment. sz \<le> kMaxSize DefaultSizeClassMap \<and>
                            alignment \<le> kMaxSize DefaultSizeClassMap),
      primary_ClassID = (\<lambda>a sz. ClassID DefaultSizeClassMap sz),
      primary_PointerIsMine = (\<lambda>a p. 2 ^ 40 \<le> p \<and> p < 2 ^ 40 + 2 ^ 40),
      primary_GetSizeClass = (\<lambda>a p. (p div 2 ^ 32) mod 256),
      primary_GetActuallyAllocatedSize =
        (\<lambda>a p. Size DefaultSizeClassMap ((p div 2 ^ 32) mod 256)),
      primary_BulkAllocate =
        (\<lambda>a class_id free_list.
           Inr ((2 ^ 40 + class_id * 2 ^ 32 + a * Size DefaultSizeClassMap class_id) # free_list,
                a + 1)),
      primary_BulkDeallocate = (\<lambda>a class_id free_list. Inr ([], a))\<rparr>"

text \<open>A cache holding one chunk of the largest class, which has a cap of one.\<close>

definition one_cached :: SizeClassAllocatorLocalCache where
  "one_cached = \<lparr>free_lists = (\<lambda>class_id. [])(255 := [2194728288256])\<rparr>"

text \<open>
  A second primary for the examples: as \<open>bump_primary\<close>, but a refill hands out three
  fresh chunks at a time. The cache below is what \<open>Allocate\<close> leaves of such a refill
  for the largest class.
\<close>

definition triple_primary :: "uptr PrimaryAllocator" where
  "triple_primary =
     bump_primary\<lparr>primary_BulkAllocate :=
       (\<lambda>a class_id free_list.
          Inr ((2 ^ 40 + class_id * 2 ^ 32 + a * Size DefaultSizeClassMap class_id)
               # (2 ^ 40 + class_id * 2 ^ 32 + (a + 1) * Size DefaultSizeClassMap class_id)
               # (2 ^ 40 + class_id * 2 ^ 32 + (a + 2) * Size DefaultSizeClassMap class_id)
               # free_list,
               a + 3))\<rparr>"

definition two_cached :: SizeClassAllocatorLocalCache where
  "two_cached = \<lparr>free_lists = (\<lambda>class_id. [])(255 := [2194730385408, 2194732482560])\<rparr>"


section \<open>Helpers of sanitizer\_libc\<close>

text \<open>
  Modelled from the spec: \<open>internal_memcpy\<close> is declared in sanitizer\_libc.h, which is
  not among the sources. Memory is a function from addresses to bytes; the copy moves
  \<open>n\<close> bytes from \<open>src\<close> to \<open>dst\<close> one at a time, lowest address first.
\<close>

type_synonym memory = "uptr \<Rightarrow> 8 word"

primrec copy_bytes :: "nat \<Rightarrow> memory \<Rightarrow> uptr \<Rightarrow> uptr \<Rightarrow> memory" where
  "copy_bytes 0 mem dst src = mem"
| "copy_bytes (Suc n) mem dst src =
     (let m = copy_bytes n mem dst src in m(dst + of_nat n := m (src + of_nat n)))"

definition internal_memcpy :: "memory \<Rightarrow> uptr \<Rightarrow> uptr \<Rightarrow> uptr \<Rightarrow> memory" where
  "internal_memcpy mem dst src n = copy_bytes (unat n) mem dst src"

text \<open>
  Modelled from the spec: \<open>internal_memset\<close> is declared in sanitizer\_libc.h, which is
  not among the sources. It stores the byte \<open>c\<close> at the \<open>n\<close> addresses from \<open>s\<close> on.
\<close>

primrec set_bytes :: "nat \<Rightarrow> memory \<Rightarrow> uptr \<Rightarrow> 8 word \<Rightarrow> memory" where
  "set_bytes 0 mem s c = mem"
| "set_bytes (Suc n) mem s c = (set_bytes n mem s c)(s + of_nat n := c)"

definition internal_memset :: "memory \<Rightarrow> uptr \<Rightarrow> 8 word \<Rightarrow> uptr \<Rightarrow> memory" where
  "internal_memset mem s c n = set_bytes (unat n) mem s c"

text \<open>
  Modelled from the spec: \<open>Min\<close> is declared in sanitizer\_common.h, which is not among
  the sources. It is the smaller of two machine words.
\<close>

definition Min_uptr :: "uptr \<Rightarrow> uptr \<Rightarrow> uptr" where
  "Min_uptr a b = (if a < b then a else b)"

section \<open>CombinedAllocator\<close>

text \<open>
  The combined allocator holds the primary and the secondary allocator; \<open>bytes\<close> is the
  memory of the process, which \<open>Allocate\<close> clears and \<open>Reallocate\<close> copies. The cache
  belongs to the calling thread: it is passed in and handed back.
\<close>

record 'p CombinedAllocator =
  primary :: 'p
  secondary :: LargeMmapAllocator
  bytes :: memory

definition Combined_Allocate ::
  "'p PrimaryAllocator \<Rightarrow> (uptr \<Rightarrow> uptr) \<Rightarrow> 'p CombinedAllocator \<Rightarrow>
   SizeClassAllocatorLocalCache \<Rightarrow> uptr \<Rightarrow> uptr \<Rightarrow> bool \<Rightarrow>
   error + (uptr \<times> SizeClassAllocatorLocalCache \<times> 'p CombinedAllocator)"
where
  "Combined_Allocate ops MmapOrDie st cache sz alignment cleared =
     (let size1 = (if sz = 0 then 1 else sz) in
      if size1 + alignment < size1 then Inr (0, cache, st)
      else
        let size2 = (if alignment > 8 then RoundUpTo size1 alignment else size1) in
        case (if primary_CanAllocate ops (primary st) size2 alignment
              then (case Cache_Allocate ops cache (primary st)
                           (primary_ClassID ops (primary st) size2) of
                      Inl e \<Rightarrow> Inl e
                    | Inr (res, cache', primary') \<Rightarrow> Inr (res, cache', st\<lparr>primary := primary'\<rparr>))
              else (case LargeMmapAllocator_Allocate MmapOrDie (secondary st) size2 alignment of
                      Inl e \<Rightarrow> Inl e
                    | Inr (res, secondary') \<Rightarrow> Inr (res, cache, st\<lparr>secondary := secondary'\<rparr>))) of
          Inl e \<Rightarrow> Inl e
        | Inr (res, cache', st') \<Rightarrow>
            if alignment > 8 \<and> res AND (alignment - 1) \<noteq> 0 then Inl CheckFailed
            else if cleared \<and> res \<noteq> 0
              then Inr (res, cache', st'\<lparr>bytes := internal_memset (bytes st') res 0 size2\<rparr>)
              else Inr (res, cache', st'))"

definition Combined_Deallocate ::
  "'p PrimaryAllocator \<Rightarrow> 'p CombinedAllocator \<Rightarrow> SizeClassAllocatorLocalCache \<Rightarrow> uptr \<Rightarrow>
   error + (SizeClassAllocatorLocalCache \<times> 'p CombinedAllocator)"
where
  "Combined_Deallocate ops st cache p =
     (if p = 0 then Inr (cache, st)
      else if primary_PointerIsMine ops (primary st) p
        then (case Cache_Deallocate ops cache (primary st)
                     (primary_GetSizeClass ops (primary st) p) p of
                Inl e \<Rightarrow> Inl e
              | Inr (cache', primary') \<Rightarrow> Inr (cache', st\<lparr>primary := primary'\<rparr>))
        else (case LargeMmapAllocator_Deallocate (secondary st) p of
                Inl e \<Rightarrow> Inl e
              | Inr secondary' \<Rightarrow> Inr (cache, st\<lparr>secondary := secondary'\<rparr>)))"

definition Combined_PointerIsMine ::
  "'p PrimaryAllocator \<Rightarrow> 'p CombinedAllocator \<Rightarrow> uptr \<Rightarrow> (error + bool) option"
where
  "Combined_PointerIsMine ops st p =
     (if primary_PointerIsMine ops (primary st) p then Some (Inr True)
      else LargeMmapAllocator_PointerIsMine (secondary st) p)"

definition Combined_GetActuallyAllocatedSize ::
  "'p PrimaryAllocator \<Rightarrow> 'p CombinedAllocator \<Rightarrow> uptr \<Rightarrow> error + uptr"
where
  "Combined_GetActuallyAllocatedSize ops st p =
     (if primary_PointerIsMine ops (primary st) p
      then Inr (primary_GetActuallyAllocatedSize ops (primary st) p)
      else LargeMmapAllocator_GetActuallyAllocatedSize (secondary st) p)"

text \<open>
  \<open>Reallocate\<close>. The check \<open>CHECK(PointerIsMine(p))\<close> walks the live list of the
  secondary allocator, so the result is \<open>None\<close> when that walk does not return.
\<close>

definition Combined_Reallocate ::
  "'p PrimaryAllocator \<Rightarrow> (uptr \<Rightarrow> uptr) \<Rightarrow> 'p CombinedAllocator \<Rightarrow>
   SizeClassAllocatorLocalCache \<Rightarrow> uptr \<Rightarrow> uptr \<Rightarrow> uptr \<Rightarrow>
   (error + (uptr \<times> SizeClassAllocatorLocalCache \<times> 'p CombinedAllocator)) option"
where
  "Combined_Reallocate ops MmapOrDie st cache p new_size alignment =
     (if p = 0 then Some (Combined_Allocate ops MmapOrDie st cache new_size alignment False)
      else if new_size = 0
        then Some (case Combined_Deallocate ops st cache p of
                     Inl e \<Rightarrow> Inl e
                   | Inr (cache', st') \<Rightarrow> Inr (0, cache', st'))
        else
          (case Combined_PointerIsMine ops st p of
             None \<Rightarrow> None
           | Some (Inl e) \<Rightarrow> Some (Inl e)
           | Some (Inr mine) \<Rightarrow>
               if \<not> mine then Some (Inl CheckFailed)
               else Some
                 (case Combined_GetActuallyAllocatedSize ops st p of
                    Inl e \<Rightarrow> Inl e
                  | Inr old_size \<Rightarrow>
                      let memcpy_size = Min_uptr new_size old_size in
                      (case Combined_Allocate ops MmapOrDie st cache new_size alignment False of
                         Inl e \<Rightarrow> Inl e
                       | Inr (new_p, cache1, st1) \<Rightarrow>
                           let st2 = (if new_p \<noteq> 0
                                      then st1\<lparr>bytes := internal_memcpy (bytes st1) new_p p
                                                           memcpy_size\<rparr>
                                      else st1)
                           in
                           (case Combined_Deallocate ops st2 cache1 p of
                              Inl e \<Rightarrow> Inl e
                            | Inr (cache2, st3) \<Rightarrow> Inr (new_p, cache2, st3))))))"

text \<open>A mapping primitive for the examples: every mapping is placed at \<open>2\<^sup>2\<^sup>0\<close>.\<close>

definition map_at_megabyte :: "uptr \<Rightarrow> uptr" where
  "map_at_megabyte n = 1048576"

text \<open>
  The combined allocator over the example primary, with the one-byte block of
  \<open>one_block\<close> live in the secondary and all memory zero.
\<close>

definition small_heap :: "uptr CombinedAllocator" where
  "small_heap = \<lparr>primary = 0, secondary = one_block, bytes = (\<lambda>a. 0)\<rparr>"

text \<open>
  The secondary allocator of \<open>small_heap\<close> after a second block, of four megabytes, was
  mapped at address \<open>2\<^sup>2\<^sup>0\<close> and spliced in front of the first.
\<close>

definition two_blocks :: LargeMmapAllocator where
  "two_blocks =
     \<lparr>page_size = 4096, list_head = 1048576,
      headers =
        [65536 \<mapsto> \<lparr>map_beg = 65536, map_size = 8192, size' = 1, next' = 0, prev = 0\<rparr>,
         1048576 \<mapsto> \<lparr>map_beg = 1048576, map_size = 4198400, size' = 4194304,
                      next' = 65536, prev = 0\<rparr>,
         65536 \<mapsto> \<lparr>map_beg = 65536, map_size = 8192, size' = 1, next' = 0, prev = 1048576\<rparr>],
      mapped = [(1048576, 4198400), (65536, 8192)]\<rparr>"


section \<open>The size-class map: round trips\<close>

subsection \<open>Ceiling division on natural numbers\<close>

lemma unat_pow2: "k < 64 \<Longrightarrow> unat ((2::uptr) ^ k) = 2 ^ k"
proof -
  assume k: "k < 64"
  have a: "of_nat (2 ^ k) = (2::uptr) ^ k" by simp
  have "(2::nat) ^ k < 2 ^ 64" using k by (intro power_strict_increasing) simp_all
  then have b: "(2::nat) ^ k < 2 ^ LENGTH(64)" by simp
  show ?thesis by (rule of_nat_inverse [OF a b])
qed

lemma cd_split: 
  assumes "0 < (s::nat)"
  shows "x \<le> (x + s - 1) div s * s \<and> (x + s - 1) div s * s < x + s"
proof -
  have a: "(x + s - 1) div s * s + (x + s - 1) mod s = x + s - 1" by simp
  have b: "(x + s - 1) mod s < s" using assms by simp
  show ?thesis using a b assms by linarith
qed

lemma cd_mult: "0 < (s::nat) \<Longrightarrow> (s * j + s - 1) div s = j"
proof -
  assume s: "0 < s"
  show ?thesis
  proof (rule div_nat_eqI)
    show "s * j \<le> s * j + s - 1" using s by simp
    show "s * j + s - 1 < s * Suc j" using s by simp
  qed
qed

lemma cd_mono: 
  assumes "0 < (s::nat)" "x \<le> m * s" shows "(x + s - 1) div s \<le> m"
proof -
  have "(x + s - 1) div s \<le> (m * s + s - 1) div s"
    using assms by (intro div_le_mono) simp
  also have "\<dots> = m" using cd_mult [OF assms(1), of m] by (simp add: mult.commute)
  finally show ?thesis .
qed

lemma cd_pos: "0 < (s::nat) \<Longrightarrow> 0 < x \<Longrightarrow> 0 < (x + s - 1) div s"
  by (simp add: div_greater_zero_iff)

lemma pow2_room: 
  assumes "k < 64" "m * 2 ^ k < (2::nat) ^ 64" shows "(m + 1) * 2 ^ k \<le> 2 ^ 64"
proof -
  have e: "(2::nat) ^ 64 = 2 ^ (64 - k) * 2 ^ k"
    using assms(1) by (simp flip: power_add)
  have "m < 2 ^ (64 - k)" using assms(2) unfolding e by simp
  then have "m + 1 \<le> 2 ^ (64 - k)" by simp
  then have "(m + 1) * 2 ^ k \<le> 2 ^ (64 - k) * 2 ^ k" by (rule mult_le_mono1)
  then show ?thesis unfolding e .
qed

subsection \<open>One segment of the spline, in machine arithmetic\<close>

lemma segment_okD:
  assumes "segment_ok lo hi s"
  obtains k m where "k < 64" "unat s = 2 ^ k" "unat lo < unat hi"
    "unat hi - unat lo = m * 2 ^ k" "0 < m" "(m + 1) * 2 ^ k \<le> 2 ^ 64"
proof -
  from assms obtain k where k: "k < 64" "s = 2 ^ k"
    by (auto simp: segment_ok_def pow2_def)
  have lt: "unat lo < unat hi"
    using assms by (simp add: segment_ok_def word_less_nat_alt)
  have le: "lo \<le> hi" using assms by (simp add: segment_ok_def less_imp_le)
  have us: "unat s = 2 ^ k" using k by (simp add: unat_pow2)
  have "unat ((hi - lo) mod s) = 0" using assms by (simp add: segment_ok_def)
  then have "(unat hi - unat lo) mod 2 ^ k = 0"
    by (simp add: unat_mod unat_sub [OF le] us)
  then have "2 ^ k dvd unat hi - unat lo" by (simp add: dvd_eq_mod_eq_0)
  then obtain m where m: "unat hi - unat lo = m * 2 ^ k"
    by (auto simp: dvd_def mult.commute)
  have mpos: "0 < m" using m lt by (cases m) simp_all
  have "unat hi < 2 ^ 64" using unsigned_less [of hi] by simp
  then have "m * 2 ^ k < (2::nat) ^ 64" using m by linarith
  then have "(m + 1) * 2 ^ k \<le> 2 ^ 64" by (rule pow2_room [OF k(1)])
  with k us lt m mpos show thesis by (rule_tac that)
qed

lemma segment_count:
  assumes "segment_ok lo hi s"
  shows "unat ((hi - lo) div s) = (unat hi - unat lo) div unat s"
proof -
  have le: "lo \<le> hi" using assms by (simp add: segment_ok_def less_imp_le)
  show ?thesis by (simp add: unat_div unat_sub [OF le])
qed

lemma classid_seg_unat:
  assumes ok: "segment_ok lo hi s" and lo: "lo \<le> sz" and hi: "sz \<le> hi"
  shows "unat ((sz - lo + s - 1) div s) = (unat sz - unat lo + unat s - 1) div unat s"
proof -
  from ok obtain k m where km: "k < 64" "unat s = 2 ^ k" "unat lo < unat hi"
    "unat hi - unat lo = m * 2 ^ k" "0 < m" "(m + 1) * 2 ^ k \<le> 2 ^ 64"
    by (rule segment_okD)
  have s0: "s \<noteq> 0" using km(2) by (auto simp: unat_eq_0)
  have e: "sz - lo + s - 1 = (sz - lo) + (s - 1)" by simp
  have a: "unat (sz - lo) = unat sz - unat lo" by (rule unat_sub [OF lo])
  have b: "unat (s - 1) = 2 ^ k - 1" using unat_minus_one [OF s0] km(2) by simp
  have "unat sz \<le> unat hi" using hi by (simp add: word_le_nat_alt)
  then have "unat sz - unat lo \<le> m * 2 ^ k" using km(4) by linarith
  moreover have "(m + 1) * 2 ^ k = m * 2 ^ k + 2 ^ k" by (simp add: algebra_simps)
  moreover have "(0::nat) < 2 ^ k" by simp
  ultimately have "unat (sz - lo) + unat (s - 1) < 2 ^ 64"
    using km(6) a b by linarith
  then have "unat (sz - lo) + unat (s - 1) < 2 ^ LENGTH(64)" by simp
  then have "unat ((sz - lo) + (s - 1)) = unat (sz - lo) + unat (s - 1)"
    by (simp only: unat_add_lem)
  then have "unat (sz - lo + s - 1) = unat (sz - lo) + unat (s - 1)"
    by (simp only: e)
  also have "\<dots> = unat sz - unat lo + unat s - 1"
    using a b km(2) \<open>(0::nat) < 2 ^ k\<close> by linarith
  finally have "unat (sz - lo + s - 1) = unat sz - unat lo + unat s - 1" .
  then show ?thesis by (simp add: unat_div)
qed

lemma size_seg_unat:
  assumes ok: "segment_ok lo hi s" and j: "unat j \<le> (unat hi - unat lo) div unat s"
  shows "unat (lo + s * j) = unat lo + unat s * unat j"
    and "unat lo + unat s * unat j \<le> unat hi"
proof -
  from ok obtain k m where km: "k < 64" "unat s = 2 ^ k" "unat lo < unat hi"
    "unat hi - unat lo = m * 2 ^ k" "0 < m" "(m + 1) * 2 ^ k \<le> 2 ^ 64"
    by (rule segment_okD)
  have "unat j \<le> m" using j km(2,4) by simp
  then have "2 ^ k * unat j \<le> 2 ^ k * m" by simp
  then have le: "unat s * unat j \<le> unat hi - unat lo" using km(2,4) by (simp add: mult.commute)
  show b: "unat lo + unat s * unat j \<le> unat hi" using le km(3) by linarith
  have h: "unat hi < 2 ^ LENGTH(64)" by (rule unsigned_less)
  have "unat s * unat j < 2 ^ LENGTH(64)" using le h by linarith
  then have m: "unat (s * j) = unat s * unat j" by (simp only: unat_mult_lem)
  have "unat lo + unat (s * j) < 2 ^ LENGTH(64)" using b h m by linarith
  then have "unat (lo + s * j) = unat lo + unat (s * j)" by (simp only: unat_add_lem)
  then show "unat (lo + s * j) = unat lo + unat s * unat j" using m by simp
qed

lemma segment_count_le:
  assumes ok: "segment_ok lo hi s"
  shows "(unat hi - unat lo) div unat s \<le> unat hi - unat lo"
    and "0 < (unat hi - unat lo) div unat s"
proof -
  from ok obtain k m where km: "k < 64" "unat s = 2 ^ k" "unat lo < unat hi"
    "unat hi - unat lo = m * 2 ^ k" "0 < m" "(m + 1) * 2 ^ k \<le> 2 ^ 64"
    by (rule segment_okD)
  show "(unat hi - unat lo) div unat s \<le> unat hi - unat lo" by (rule div_le_dividend)
  show "0 < (unat hi - unat lo) div unat s" using km(2,4,5) by simp
qed

lemma u_step:
  assumes ok: "segment_ok lo hi s" and u: "unat u \<le> unat lo"
  shows "unat (u + (hi - lo) div s) = unat u + (unat hi - unat lo) div unat s"
    and "unat (u + (hi - lo) div s) \<le> unat hi"
    and "unat u < unat (u + (hi - lo) div s)"
proof -
  have a: "unat ((hi - lo) div s) = (unat hi - unat lo) div unat s"
    by (rule segment_count [OF ok])
  have h: "unat hi < 2 ^ LENGTH(64)" by (rule unsigned_less)
  have lh: "unat lo \<le> unat hi"
    using ok by (simp add: segment_ok_def word_less_nat_alt)
  have b: "unat u + unat ((hi - lo) div s) \<le> unat hi"
    using segment_count_le(1) [OF ok] u a lh by linarith
  then have "unat u + unat ((hi - lo) div s) < 2 ^ LENGTH(64)" using h by linarith
  then have c: "unat (u + (hi - lo) div s) = unat u + unat ((hi - lo) div s)"
    by (simp only: unat_add_lem)
  show "unat (u + (hi - lo) div s) = unat u + (unat hi - unat lo) div unat s"
    using c a by simp
  show "unat (u + (hi - lo) div s) \<le> unat hi" using c b by simp
  show "unat u < unat (u + (hi - lo) div s)"
    using c a segment_count_le(2) [OF ok] by simp
qed

lemma seg_round:
  assumes ok: "segment_ok lo hi s" and lo: "lo \<le> sz" and hi: "sz \<le> hi"
    and u: "unat u \<le> unat lo"
  defines "c \<equiv> u + (sz - lo + s - 1) div s"
  shows "unat c \<le> unat (u + (hi - lo) div s)"
    and "lo < sz \<Longrightarrow> unat u < unat c"
    and "c - u = (sz - lo + s - 1) div s"
    and "sz \<le> lo + s * (c - u)"
    and "lo + s * (c - u) - sz < s"
proof -
  from ok obtain k m where km: "k < 64" "unat s = 2 ^ k" "unat lo < unat hi"
    "unat hi - unat lo = m * 2 ^ k" "0 < m" "(m + 1) * 2 ^ k \<le> 2 ^ 64"
    by (rule segment_okD)
  define x where "x = unat sz - unat lo"
  define q where "q = (x + 2 ^ k - 1) div 2 ^ k"
  define d where "d = (sz - lo + s - 1) div s"
  have spos: "(0::nat) < 2 ^ k" by simp
  have ud: "unat d = q"
    using classid_seg_unat [OF ok lo hi] by (simp add: d_def q_def x_def km(2))
  have xle: "x \<le> m * 2 ^ k"
    using hi km(4) by (simp add: x_def word_le_nat_alt)
  have qm: "q \<le> m" unfolding q_def by (rule cd_mono [OF spos xle])
  have cnt: "(unat hi - unat lo) div unat s = m" using km(2,4) by simp
  have top: "unat (u + (hi - lo) div s) = unat u + m"
    using u_step(1) [OF ok u] cnt by simp
  have h: "unat (u + (hi - lo) div s) < 2 ^ LENGTH(64)" by (rule unsigned_less)
  have "unat u + unat d < 2 ^ LENGTH(64)" using top h qm ud by linarith
  then have "unat (u + d) = unat u + unat d" by (simp only: unat_add_lem)
  then have uc: "unat c = unat u + q" using ud by (simp add: c_def d_def)
  show "unat c \<le> unat (u + (hi - lo) div s)" using uc top qm by simp
  show "unat u < unat c" if "lo < sz"
  proof -
    have "0 < x" using that by (simp add: x_def word_less_nat_alt)
    then have "0 < q" unfolding q_def by (intro cd_pos) simp_all
    then show ?thesis using uc by simp
  qed
  show cu: "c - u = (sz - lo + s - 1) div s" by (simp add: c_def)
  have j: "unat d \<le> (unat hi - unat lo) div unat s" using ud qm cnt by simp
  have v: "unat (lo + s * d) = unat lo + 2 ^ k * q"
    using size_seg_unat(1) [OF ok j] ud km(2) by simp
  have sp: "x \<le> q * 2 ^ k \<and> q * 2 ^ k < x + 2 ^ k"
    unfolding q_def by (rule cd_split [OF spos])
  have usz: "unat sz = unat lo + x"
    using lo by (simp add: x_def word_le_nat_alt)
  have le: "unat sz \<le> unat (lo + s * d)"
    using v sp usz by (simp add: mult.commute)
  then have wle: "sz \<le> lo + s * d" by (simp add: word_le_nat_alt)
  then show "sz \<le> lo + s * (c - u)" by (simp only: cu d_def)
  have "unat (lo + s * d - sz) = unat (lo + s * d) - unat sz" by (rule unat_sub [OF wle])
  also have "\<dots> = q * 2 ^ k - x" using v usz by (simp add: mult.commute)
  also have "\<dots> < 2 ^ k" using sp by linarith
  finally have "lo + s * d - sz < s" by (simp add: word_less_nat_alt km(2))
  then show "lo + s * (c - u) - sz < s" by (simp only: cu d_def)
qed

lemma seg_back:
  assumes ok: "segment_ok lo hi s" and u: "unat u \<le> unat lo"
    and c1: "unat u \<le> unat c" and c2: "unat c \<le> unat (u + (hi - lo) div s)"
  defines "sz \<equiv> lo + s * (c - u)"
  shows "lo \<le> sz" and "sz \<le> hi" and "unat u < unat c \<Longrightarrow> lo < sz"
    and "u + (sz - lo + s - 1) div s = c"
proof -
  from ok obtain k m where km: "k < 64" "unat s = 2 ^ k" "unat lo < unat hi"
    "unat hi - unat lo = m * 2 ^ k" "0 < m" "(m + 1) * 2 ^ k \<le> 2 ^ 64"
    by (rule segment_okD)
  define j where "j = c - u"
  have spos: "(0::nat) < 2 ^ k" by simp
  have uj: "unat j = unat c - unat u"
    unfolding j_def using c1 by (intro unat_sub) (simp add: word_le_nat_alt)
  have jm: "unat j \<le> (unat hi - unat lo) div unat s"
    using uj c2 u_step(1) [OF ok u] by linarith
  have v: "unat sz = unat lo + 2 ^ k * unat j"
    using size_seg_unat(1) [OF ok jm] by (simp add: sz_def j_def km(2))
  have vh: "unat sz \<le> unat hi"
    using size_seg_unat(2) [OF ok jm] v km(2) by simp
  show lo: "lo \<le> sz" using v by (simp add: word_le_nat_alt)
  show hi: "sz \<le> hi" using vh by (simp add: word_le_nat_alt)
  show "lo < sz" if "unat u < unat c"
    using that v uj by (simp add: word_less_nat_alt)
  have "unat ((sz - lo + s - 1) div s) = (unat sz - unat lo + unat s - 1) div unat s"
    by (rule classid_seg_unat [OF ok lo hi])
  also have "\<dots> = (2 ^ k * unat j + 2 ^ k - 1) div 2 ^ k" using v km(2) by simp
  also have "\<dots> = unat j" by (rule cd_mult [OF spos])
  finally have "(sz - lo + s - 1) div s = j" by (rule word_unat_eq_iff [THEN iffD2])
  then show "u + (sz - lo + s - 1) div s = c" by (simp add: j_def)
qed

lemma spline_okD:
  assumes "spline_ok P"
  shows "segment_ok (l0 P) (l1 P) (s0 P)" "segment_ok (l1 P) (l2 P) (s1 P)"
    "segment_ok (l2 P) (l3 P) (s2 P)" "segment_ok (l3 P) (l4 P) (s3 P)"
    "segment_ok (l4 P) (l5 P) (s4 P)"
  using assms by (simp_all add: spline_ok_def)

lemma u_chain:
  assumes ok: "spline_ok P"
  shows "unat (u0 P) \<le> unat (l1 P)" "unat (u1 P) \<le> unat (l2 P)"
    "unat (u2 P) \<le> unat (l3 P)" "unat (u3 P) \<le> unat (l4 P)"
    "unat (u0 P) < unat (u1 P)" "unat (u1 P) < unat (u2 P)"
    "unat (u2 P) < unat (u3 P)" "unat (u3 P) < unat (u4 P)"
proof -
  note sg = spline_okD [OF ok]
  have z: "unat (0::uptr) \<le> unat (l0 P)" by simp
  show a0: "unat (u0 P) \<le> unat (l1 P)"
    unfolding u0_def by (rule u_step(2) [OF sg(1) z])
  show a1: "unat (u1 P) \<le> unat (l2 P)"
    unfolding u1_def by (rule u_step(2) [OF sg(2) a0])
  show a2: "unat (u2 P) \<le> unat (l3 P)"
    unfolding u2_def by (rule u_step(2) [OF sg(3) a1])
  show a3: "unat (u3 P) \<le> unat (l4 P)"
    unfolding u3_def by (rule u_step(2) [OF sg(4) a2])
  show "unat (u0 P) < unat (u1 P)"
    unfolding u1_def by (rule u_step(3) [OF sg(2) a0])
  show "unat (u1 P) < unat (u2 P)"
    unfolding u2_def by (rule u_step(3) [OF sg(3) a1])
  show "unat (u2 P) < unat (u3 P)"
    unfolding u3_def by (rule u_step(3) [OF sg(4) a2])
  show "unat (u3 P) < unat (u4 P)"
    unfolding u4_def by (rule u_step(3) [OF sg(5) a3])
qed

lemma bounds_chain:
  assumes ok: "spline_ok P"
  shows "l0 P < l1 P" "l1 P < l2 P" "l2 P < l3 P" "l3 P < l4 P" "l4 P < l5 P"
  using assms by (simp_all add: spline_ok_def segment_ok_def)

lemma word_less_succ:
  assumes "(c::uptr) < u + 1" shows "c \<le> u"
proof -
  have "unat (u + 1) \<le> unat u + 1" by (simp add: unat_word_ariths)
  moreover have "unat c < unat (u + 1)" using assms by (simp add: word_less_nat_alt)
  ultimately show ?thesis by (simp add: word_le_nat_alt)
qed

lemma pow2_I: "k < 64 \<Longrightarrow> pow2 (2 ^ k)"
  by (auto simp: pow2_def)

lemma spline_ok_Default: "spline_ok DefaultSizeClassMap"
proof -
  have "pow2 (2 ^ 4)" "pow2 (2 ^ 6)" "pow2 (2 ^ 9)" "pow2 (2 ^ 12)" "pow2 (2 ^ 15)"
    by (simp_all only: pow2_I)
  then show ?thesis
    by (simp add: spline_ok_def segment_ok_def DefaultSizeClassMap_def)
qed

lemma spline_ok_Compact: "spline_ok CompactSizeClassMap"
proof -
  have "pow2 (2 ^ 3)" "pow2 (2 ^ 4)" "pow2 (2 ^ 7)" "pow2 (2 ^ 8)" "pow2 (2 ^ 12)"
    by (simp_all only: pow2_I)
  then show ?thesis
    by (simp add: spline_ok_def segment_ok_def CompactSizeClassMap_def)
qed

lemma Default_values:
  "kMinSize DefaultSizeClassMap = 16" "kMaxSize DefaultSizeClassMap = 2097152"
  "kNumClasses DefaultSizeClassMap = 256"
  "ClassID DefaultSizeClassMap 513 = 32" "Size DefaultSizeClassMap 32 = 576"
  "segment_step DefaultSizeClassMap 32 = 64"
  by (simp_all add: kMinSize_def kMaxSize_def kNumClasses_def ClassID_def Size_def
      segment_step_def u0_def u1_def u2_def u3_def u4_def DefaultSizeClassMap_def)

subsection \<open>The round-trip laws\<close>

text \<open>
  Claim C2. For a spline size-class map whose parameters satisfy the invariants of the
  instantiations (bounds strictly increasing, every step a power of two, every segment a
  whole number of steps), every request size \<open>S\<close> between \<open>kMinSize\<close> and \<open>kMaxSize\<close>
  is mapped to a class that is large enough, \<open>S \<le> Size (ClassID S)\<close>, and wastes less
  than one step of the segment the class lies in.
\<close>

theorem size_class_roundup:
  assumes ok: "spline_ok P" and lo: "kMinSize P \<le> S" and hi: "S \<le> kMaxSize P"
  shows "S \<le> Size P (ClassID P S) \<and>
         Size P (ClassID P S) - S < segment_step P (ClassID P S)"
proof -
  note sg = spline_okD [OF ok] and uc = u_chain [OF ok] and bc = bounds_chain [OF ok]
  have z: "unat (0::uptr) \<le> unat (l0 P)" by simp
  have lo': "l0 P \<le> S" using lo by (simp add: kMinSize_def)
  have hi': "S \<le> l5 P" using hi by (simp add: kMaxSize_def)
  consider (a) "S \<le> l1 P" | (b) "l1 P < S" "S \<le> l2 P" | (c) "l2 P < S" "S \<le> l3 P"
    | (d) "l3 P < S" "S \<le> l4 P" | (e) "l4 P < S" "S \<le> l5 P"
    using hi' by fastforce
  then show ?thesis
  proof cases
    case a
    define c where "c = 0 + (S - l0 P + s0 P - 1) div s0 P"
    have cid: "ClassID P S = c" using a by (simp add: ClassID_def c_def)
    note r = seg_round [OF sg(1) lo' a z, folded c_def]
    have "c \<le> u0 P" using r(1) by (simp add: u0_def word_le_nat_alt)
    then have "Size P c = l0 P + s0 P * (c - 0)" "segment_step P c = s0 P"
      by (simp_all add: Size_def segment_step_def)
    then show ?thesis using r(4,5) cid by simp
  next
    case b
    define c where "c = u0 P + (S - l1 P + s1 P - 1) div s1 P"
    have n: "\<not> S \<le> l1 P" using b(1) by (simp add: word_le_nat_alt word_less_nat_alt)
    have cid: "ClassID P S = c" using b n by (simp add: ClassID_def c_def)
    note r = seg_round [OF sg(2) less_imp_le [OF b(1)] b(2) uc(1), folded c_def]
    have "c \<le> u1 P" "\<not> c \<le> u0 P"
      using r(1) r(2) [OF b(1)] by (simp_all add: u1_def word_le_nat_alt)
    then have "Size P c = l1 P + s1 P * (c - u0 P)" "segment_step P c = s1 P"
      by (simp_all add: Size_def segment_step_def)
    then show ?thesis using r(4,5) cid by simp
  next
    case c
    define c' where "c' = u1 P + (S - l2 P + s2 P - 1) div s2 P"
    have n: "\<not> S \<le> l1 P" "\<not> S \<le> l2 P"
      using c(1) bc(1-4) by (simp_all add: word_le_nat_alt word_less_nat_alt)
    have cid: "ClassID P S = c'" using c n by (simp add: ClassID_def c'_def)
    note r = seg_round [OF sg(3) less_imp_le [OF c(1)] c(2) uc(2), folded c'_def]
    have "c' \<le> u2 P" "\<not> c' \<le> u1 P" "\<not> c' \<le> u0 P"
      using r(1) r(2) [OF c(1)] uc by (simp_all add: u2_def word_le_nat_alt)
    then have "Size P c' = l2 P + s2 P * (c' - u1 P)" "segment_step P c' = s2 P"
      by (simp_all add: Size_def segment_step_def)
    then show ?thesis using r(4,5) cid by simp
  next
    case d
    define c where "c = u2 P + (S - l3 P + s3 P - 1) div s3 P"
    have n: "\<not> S \<le> l1 P" "\<not> S \<le> l2 P" "\<not> S \<le> l3 P"
      using d(1) bc(1-4) by (simp_all add: word_le_nat_alt word_less_nat_alt)
    have cid: "ClassID P S = c" using d n by (simp add: ClassID_def c_def)
    note r = seg_round [OF sg(4) less_imp_le [OF d(1)] d(2) uc(3), folded c_def]
    have "c \<le> u3 P" "\<not> c \<le> u2 P" "\<not> c \<le> u1 P" "\<not> c \<le> u0 P"
      using r(1) r(2) [OF d(1)] uc by (simp_all add: u3_def word_le_nat_alt)
    then have "Size P c = l3 P + s3 P * (c - u2 P)" "segment_step P c = s3 P"
      by (simp_all add: Size_def segment_step_def)
    then show ?thesis using r(4,5) cid by simp
  next
    case e
    define c where "c = u3 P + (S - l4 P + s4 P - 1) div s4 P"
    have n: "\<not> S \<le> l1 P" "\<not> S \<le> l2 P" "\<not> S \<le> l3 P" "\<not> S \<le> l4 P"
      using e(1) bc(1-4) by (simp_all add: word_le_nat_alt word_less_nat_alt)
    have cid: "ClassID P S = c" using e n by (simp add: ClassID_def c_def)
    note r = seg_round [OF sg(5) less_imp_le [OF e(1)] e(2) uc(4), folded c_def]
    have "c \<le> u4 P" "\<not> c \<le> u3 P" "\<not> c \<le> u2 P" "\<not> c \<le> u1 P" "\<not> c \<le> u0 P"
      using r(1) r(2) [OF e(1)] uc by (simp_all add: u4_def word_le_nat_alt)
    then have "Size P c = l4 P + s4 P * (c - u3 P)" "segment_step P c = s4 P"
      by (simp_all add: Size_def segment_step_def)
    then show ?thesis using r(4,5) cid by simp
  qed
qed

theorem size_class_roundup_witness:
  "spline_ok DefaultSizeClassMap \<and> kMinSize DefaultSizeClassMap \<le> 513 \<and>
   513 \<le> kMaxSize DefaultSizeClassMap \<and>
   ClassID DefaultSizeClassMap 513 = 32 \<and> Size DefaultSizeClassMap 32 = 576 \<and>
   (513::uptr) \<le> 576 \<and> (576::uptr) - 513 < segment_step DefaultSizeClassMap 32"
  using size_class_roundup [OF spline_ok_Default, of 513] spline_ok_Default
  by (simp add: Default_values)

text \<open>
  Claim C3. Under the same parameter invariants, every class id \<open>c\<close> below
  \<open>kNumClasses\<close> is the class of its own size: \<open>ClassID (Size c) = c\<close>.
\<close>

theorem classid_of_size:
  assumes ok: "spline_ok P" and c: "c < kNumClasses P"
  shows "ClassID P (Size P c) = c"
proof -
  note sg = spline_okD [OF ok] and uc = u_chain [OF ok] and bc = bounds_chain [OF ok]
  have z: "unat (0::uptr) \<le> unat (l0 P)" by simp
  have top: "c \<le> u4 P" using c unfolding kNumClasses_def by (rule word_less_succ)
  consider (a) "c \<le> u0 P" | (b) "u0 P < c" "c \<le> u1 P" | (c) "u1 P < c" "c \<le> u2 P"
    | (d) "u2 P < c" "c \<le> u3 P" | (e) "u3 P < c" "c \<le> u4 P"
    using top by fastforce
  then show ?thesis
  proof cases
    case a
    define sz where "sz = l0 P + s0 P * (c - 0)"
    have sd: "Size P c = sz" using a by (simp add: Size_def sz_def)
    have c1: "unat (0::uptr) \<le> unat c" by simp
    have c2: "unat c \<le> unat (0 + (l1 P - l0 P) div s0 P)"
      using a by (simp add: u0_def word_le_nat_alt)
    note r = seg_back [OF sg(1) z c1 c2, folded sz_def]
    show ?thesis using r(2,4) sd by (simp add: ClassID_def)
  next
    case b
    define sz where "sz = l1 P + s1 P * (c - u0 P)"
    have n: "\<not> c \<le> u0 P" using b(1) by (simp add: word_le_nat_alt word_less_nat_alt)
    have sd: "Size P c = sz" using b n by (simp add: Size_def sz_def)
    have c1: "unat (u0 P) < unat c" using b(1) by (simp add: word_less_nat_alt)
    have c2: "unat c \<le> unat (u0 P + (l2 P - l1 P) div s1 P)"
      using b(2) by (simp add: u1_def word_le_nat_alt)
    note r = seg_back [OF sg(2) uc(1) less_imp_le [OF c1] c2, folded sz_def]
    have m: "\<not> sz \<le> l1 P"
      using r(3) [OF c1] by (simp add: word_le_nat_alt word_less_nat_alt)
    show ?thesis using r(2,4) m sd by (simp add: ClassID_def)
  next
    case c
    define sz where "sz = l2 P + s2 P * (c - u1 P)"
    have n: "\<not> c \<le> u0 P" "\<not> c \<le> u1 P"
      using c(1) uc by (simp_all add: word_le_nat_alt word_less_nat_alt)
    have sd: "Size P c = sz" using c n by (simp add: Size_def sz_def)
    have c1: "unat (u1 P) < unat c" using c(1) by (simp add: word_less_nat_alt)
    have c2: "unat c \<le> unat (u1 P + (l3 P - l2 P) div s2 P)"
      using c(2) by (simp add: u2_def word_le_nat_alt)
    note r = seg_back [OF sg(3) uc(2) less_imp_le [OF c1] c2, folded sz_def]
    have m: "\<not> sz \<le> l1 P" "\<not> sz \<le> l2 P"
      using r(3) [OF c1] bc by (simp_all add: word_le_nat_alt word_less_nat_alt)
    show ?thesis using r(2,4) m sd by (simp add: ClassID_def)
  next
    case d
    define sz where "sz = l3 P + s3 P * (c - u2 P)"
    have n: "\<not> c \<le> u0 P" "\<not> c \<le> u1 P" "\<not> c \<le> u2 P"
      using d(1) uc by (simp_all add: word_le_nat_alt word_less_nat_alt)
    have sd: "Size P c = sz" using d n by (simp add: Size_def sz_def)
    have c1: "unat (u2 P) < unat c" using d(1) by (simp add: word_less_nat_alt)
    have c2: "unat c \<le> unat (u2 P + (l4 P - l3 P) div s3 P)"
      using d(2) by (simp add: u3_def word_le_nat_alt)
    note r = seg_back [OF sg(4) uc(3) less_imp_le [OF c1] c2, folded sz_def]
    have m: "\<not> sz \<le> l1 P" "\<not> sz \<le> l2 P" "\<not> sz \<le> l3 P"
      using r(3) [OF c1] bc by (simp_all add: word_le_nat_alt word_less_nat_alt)
    show ?thesis using r(2,4) m sd by (simp add: ClassID_def)
  next
    case e
    define sz where "sz = l4 P + s4 P * (c - u3 P)"
    have n: "\<not> c \<le> u0 P" "\<not> c \<le> u1 P" "\<not> c \<le> u2 P" "\<not> c \<le> u3 P"
      using e(1) uc by (simp_all add: word_le_nat_alt word_less_nat_alt)
    have sd: "Size P c = sz" using e n by (simp add: Size_def sz_def)
    have c1: "unat (u3 P) < unat c" using e(1) by (simp add: word_less_nat_alt)
    have c2: "unat c \<le> unat (u3 P + (l5 P - l4 P) div s4 P)"
      using e(2) by (simp add: u4_def word_le_nat_alt)
    note r = seg_back [OF sg(5) uc(4) less_imp_le [OF c1] c2, folded sz_def]
    have m: "\<not> sz \<le> l1 P" "\<not> sz \<le> l2 P" "\<not> sz \<le> l3 P" "\<not> sz \<le> l4 P"
      using r(3) [OF c1] bc by (simp_all add: word_le_nat_alt word_less_nat_alt)
    show ?thesis using r(2,4) m sd by (simp add: ClassID_def)
  qed
qed

theorem classid_of_size_witness:
  "spline_ok DefaultSizeClassMap \<and> 32 < kNumClasses DefaultSizeClassMap \<and>
   Size DefaultSizeClassMap 32 = 576 \<and> ClassID DefaultSizeClassMap 576 = 32"
  using classid_of_size [OF spline_ok_Default, of 32] spline_ok_Default
  by (simp add: Default_values)

section \<open>The large-map allocator\<close>

subsection \<open>Memory in use\<close>

lemma total_loop_live:
  "live_list (headers a) l hl \<Longrightarrow>
   TotalMemoryUsed_loop a l res =
     Some (Inr (res + sum_list (map (\<lambda>hdr. RoundUpTo (size' hdr) (page_size a) + page_size a) hl)))"
proof (induction hl arbitrary: l res)
  case Nil
  then show ?case by (simp add: TotalMemoryUsed_loop.simps)
next
  case (Cons hdr rest)
  from Cons.prems have l: "l \<noteq> 0" "headers a l = Some hdr"
    and rest: "live_list (headers a) (next' hdr) rest" by simp_all
  have "TotalMemoryUsed_loop a l res =
        TotalMemoryUsed_loop a (next' hdr) (res + RoundUpMapSize a (size' hdr))"
    using l by (subst TotalMemoryUsed_loop.simps) simp
  also have "\<dots> = Some (Inr (res + RoundUpMapSize a (size' hdr) +
        sum_list (map (\<lambda>hdr. RoundUpTo (size' hdr) (page_size a) + page_size a) rest)))"
    by (rule Cons.IH [OF rest])
  finally show ?case by (simp add: RoundUpMapSize_def add.assoc)
qed

lemma RoundUpTo_1_4096: "RoundUpTo 1 4096 = (4096::uptr)"
  by (simp add: RoundUpTo_def)

text \<open>
  Claim C1, amended. \<open>TotalMemoryUsed\<close> returns the sum, over the headers on the live
  list, of \<open>RoundUpMapSize\<close> of the user size: the user size rounded up to whole pages
  plus one page for the header, in machine arithmetic. The claim as stated leaves the
  header page out; the counterexample below is a live list of one block of one byte, for
  which the function returns 8192 and not 4096.
\<close>

theorem total_memory_used_sum:
  "live_list (headers a) (list_head a) hl \<Longrightarrow>
   LargeMmapAllocator_TotalMemoryUsed a =
     Some (Inr (sum_list (map (\<lambda>hdr. RoundUpTo (size' hdr) (page_size a) + page_size a) hl)))"
  unfolding LargeMmapAllocator_TotalMemoryUsed_def
  using total_loop_live [of a "list_head a" hl 0] by simp

theorem total_memory_used_sum_witness:
  "live_list (headers one_block) (list_head one_block)
     [\<lparr>map_beg = 65536, map_size = 8192, size' = 1, next' = 0, prev = 0\<rparr>] \<and>
   LargeMmapAllocator_TotalMemoryUsed one_block = Some (Inr (4096 + 4096))"
  using total_memory_used_sum [of one_block
      "[\<lparr>map_beg = 65536, map_size = 8192, size' = 1, next' = 0, prev = 0\<rparr>]"]
  by (simp add: one_block_def RoundUpTo_1_4096)

theorem total_memory_used_counterexample:
  "live_list (headers one_block) (list_head one_block)
     [\<lparr>map_beg = 65536, map_size = 8192, size' = 1, next' = 0, prev = 0\<rparr>] \<and>
   RoundUpTo 1 (page_size one_block) = 4096 \<and>
   LargeMmapAllocator_TotalMemoryUsed one_block = Some (Inr 8192) \<and>
   LargeMmapAllocator_TotalMemoryUsed one_block
     \<noteq> Some (Inr (RoundUpTo 1 (page_size one_block)))"
  by (simp add: one_block_def LargeMmapAllocator_TotalMemoryUsed_def
      TotalMemoryUsed_loop.simps RoundUpMapSize_def RoundUpTo_1_4096)

subsection \<open>The size reported for a block\<close>

lemma Allocate_link_header:
  assumes "Allocate_link a h hdr = Inr a'"
  shows "page_size a' = page_size a"
    and "\<exists>hdr'. headers a' h = Some hdr' \<and> size' hdr' = size' hdr"
  using assms unfolding Allocate_link_def
  by (auto simp: Let_def split: if_splits option.splits)

text \<open>
  Claim C7. For a pointer returned by a successful \<open>Allocate\<close> of a given user size,
  \<open>GetActuallyAllocatedSize\<close> is the user size rounded up to whole pages, whatever the
  alignment and the slack it added to the mapping.
\<close>

theorem actually_allocated_size:
  assumes al: "LargeMmapAllocator_Allocate MmapOrDie a sz alignment = Inr (p, a')"
    and p: "p \<noteq> 0"
  shows "LargeMmapAllocator_GetActuallyAllocatedSize a' p = Inr (RoundUpTo sz (page_size a))"
proof -
  define ms where "ms = Allocate_map_size a sz alignment"
  define hdr where "hdr = \<lparr>map_beg = MmapOrDie ms, map_size = ms, size' = sz,
                            next' = 0, prev = 0\<rparr>"
  define a1 where "a1 = a\<lparr>mapped := (MmapOrDie ms, ms) # mapped a\<rparr>"
  from al p obtain h where h: "GetHeader a p = Inr h" and lk: "Allocate_link a1 h hdr = Inr a'"
    unfolding LargeMmapAllocator_Allocate_def ms_def [symmetric] Let_def
    by (auto simp: hdr_def a1_def split: if_splits sum.splits)
  have ps: "page_size a' = page_size a"
    using Allocate_link_header(1) [OF lk] by (simp add: a1_def)
  from Allocate_link_header(2) [OF lk] obtain hdr'
    where hdr': "headers a' h = Some hdr'" "size' hdr' = sz"
    by (auto simp: hdr_def)
  have "GetHeader a' p = GetHeader a p" using ps by (simp add: GetHeader_def)
  then have "GetHeader a' p = Inr h" using h by simp
  then show ?thesis
    using hdr' ps
    by (simp add: LargeMmapAllocator_GetActuallyAllocatedSize_def RoundUpMapSize_def)
qed

theorem actually_allocated_size_witness:
  "LargeMmapAllocator_Allocate (\<lambda>n. 65536) no_blocks 100 8192 =
     Inr (73728, \<lparr>page_size = 4096, list_head = 69632,
       headers = [69632 \<mapsto> \<lparr>map_beg = 65536, map_size = 16384, size' = 100,
                                next' = 0, prev = 0\<rparr>],
       mapped = [(65536, 16384)]\<rparr>) \<and>
   (73728::uptr) \<noteq> 0 \<and>
   LargeMmapAllocator_GetActuallyAllocatedSize
     \<lparr>page_size = 4096, list_head = 69632,
       headers = [69632 \<mapsto> \<lparr>map_beg = 65536, map_size = 16384, size' = 100,
                                next' = 0, prev = 0\<rparr>],
       mapped = [(65536, 16384)]\<rparr> 73728 = Inr 4096"
proof -
  have run: "LargeMmapAllocator_Allocate (\<lambda>n. 65536) no_blocks 100 8192 =
     Inr (73728, \<lparr>page_size = 4096, list_head = 69632,
       headers = [69632 \<mapsto> \<lparr>map_beg = 65536, map_size = 16384, size' = 100,
                                next' = 0, prev = 0\<rparr>],
       mapped = [(65536, 16384)]\<rparr>)"
    by (simp add: LargeMmapAllocator_Allocate_def IsPowerOfTwo_def Allocate_map_size_def
        Allocate_res_def Allocate_link_def GetHeader_def RoundUpMapSize_def RoundUpTo_def
        no_blocks_def Let_def)
  have nz: "(73728::uptr) \<noteq> 0" by simp
  show ?thesis
    using actually_allocated_size [OF run nz] run
    by (simp add: no_blocks_def RoundUpTo_def)
qed

subsection \<open>Masks and rounding in machine arithmetic\<close>

lemma and_not_eq_minus: "(x::uptr) AND NOT m = x - (x AND m)"
proof -
  have "x - (x AND m) = x AND NOT (x AND m)"
    by (rule disjunctive_diff) (simp add: bit_and_iff)
  also have "\<dots> = x AND NOT m"
    by (auto simp: bit_eq_iff bit_simps)
  finally show ?thesis by simp
qed

lemma and_pow2m1:
  assumes "k < 64" shows "(x::uptr) AND (2 ^ k - 1) = x mod 2 ^ k"
proof -
  have "0 < (2::uptr) ^ k" using assms by (simp add: word_less_nat_alt unat_pow2)
  then have "x mod 2 ^ k = x AND mask k" by (rule word_mod_2p_is_mask)
  then show ?thesis by (simp add: mask_eq_decr_exp)
qed

lemma unat_mod_pow2: "k < 64 \<Longrightarrow> unat ((x::uptr) mod 2 ^ k) = unat x mod 2 ^ k"
  by (simp add: unat_mod unat_pow2)

lemma unat_and_not_pow2m1:
  assumes "k < 64"
  shows "unat ((x::uptr) AND NOT (2 ^ k - 1)) = unat x div 2 ^ k * 2 ^ k"
proof -
  have le: "x mod 2 ^ k \<le> x"
    by (simp add: word_le_nat_alt unat_mod_pow2 [OF assms])
  have "x AND NOT (2 ^ k - 1) = x - x mod 2 ^ k"
    by (simp add: and_not_eq_minus and_pow2m1 [OF assms])
  then have "unat (x AND NOT (2 ^ k - 1)) = unat x - unat x mod 2 ^ k"
    by (simp add: unat_sub [OF le] unat_mod_pow2 [OF assms])
  then show ?thesis by (simp add: minus_mod_eq_div_mult)
qed

lemma IsPowerOfTwo_pow2: "k < 64 \<Longrightarrow> IsPowerOfTwo (2 ^ k)"
  by (simp add: IsPowerOfTwo_def and_pow2m1)

lemma round_down_mod:
  assumes "k \<le> 64"
  shows "((y::nat) mod 2 ^ 64) div 2 ^ k * 2 ^ k = (y div 2 ^ k * 2 ^ k) mod 2 ^ 64"
proof -
  have e: "(2::nat) ^ 64 = 2 ^ k * 2 ^ (64 - k)"
    using assms by (simp flip: power_add)
  have "(y mod (2 ^ k * 2 ^ (64 - k))) div 2 ^ k = (y div 2 ^ k) mod 2 ^ (64 - k)"
    by (simp add: mod_mult2_eq)
  then have "(y mod 2 ^ 64) div 2 ^ k * 2 ^ k = 2 ^ k * ((y div 2 ^ k) mod 2 ^ (64 - k))"
    by (simp only: e) (simp add: mult.commute)
  also have "\<dots> = (2 ^ k * (y div 2 ^ k)) mod (2 ^ k * 2 ^ (64 - k))"
    by (rule mult_mod_right)
  finally show ?thesis by (simp only: e) (simp add: mult.commute)
qed

lemma RoundUpTo_unat:
  assumes k: "k < 64"
  shows "unat (RoundUpTo sz (2 ^ k)) = ((unat sz + 2 ^ k - 1) div 2 ^ k * 2 ^ k) mod 2 ^ 64"
proof -
  have nz: "(2::uptr) ^ k \<noteq> 0" using k by (simp add: unat_pow2 flip: unat_gt_0)
  have m1: "unat ((2::uptr) ^ k - 1) = 2 ^ k - 1"
    using unat_minus_one [OF nz] by (simp add: unat_pow2 [OF k])
  have e: "sz + 2 ^ k - 1 = sz + (2 ^ k - 1)" by simp
  have "unat (sz + (2 ^ k - 1)) = (unat sz + (2 ^ k - 1)) mod 2 ^ 64"
    by (simp add: unat_word_ariths m1)
  also have "unat sz + (2 ^ k - 1) = unat sz + 2 ^ k - 1" by simp
  finally have x: "unat (sz + 2 ^ k - 1) = (unat sz + 2 ^ k - 1) mod 2 ^ 64"
    by (simp only: e)
  have "unat (RoundUpTo sz (2 ^ k)) = unat (sz + 2 ^ k - 1) div 2 ^ k * 2 ^ k"
    unfolding RoundUpTo_def by (rule unat_and_not_pow2m1 [OF k])
  also have "\<dots> = ((unat sz + 2 ^ k - 1) mod 2 ^ 64) div 2 ^ k * 2 ^ k"
    by (simp only: x)
  also have "\<dots> = ((unat sz + 2 ^ k - 1) div 2 ^ k * 2 ^ k) mod 2 ^ 64"
    using k by (intro round_down_mod) simp
  finally show ?thesis .
qed

lemma map_size_unat:
  assumes pg: "pow2 (page_size a)"
  shows "unat (Allocate_map_size a sz alignment) = map_size_exact a sz alignment mod 2 ^ 64"
proof -
  from pg obtain k where k: "k < 64" "page_size a = 2 ^ k" by (auto simp: pow2_def)
  have P: "unat (page_size a) = 2 ^ k" using k by (simp add: unat_pow2)
  define R where "R = (unat sz + 2 ^ k - 1) div 2 ^ k * (2::nat) ^ k"
  have r: "unat (RoundUpTo sz (page_size a)) = R mod 2 ^ 64"
    using RoundUpTo_unat [OF k(1), of sz] by (simp add: k(2) R_def)
  have m0: "unat (RoundUpMapSize a sz) = (R + 2 ^ k) mod 2 ^ 64"
    by (simp add: RoundUpMapSize_def unat_word_ariths r P mod_add_left_eq)
  show ?thesis
  proof (cases "alignment > page_size a")
    case True
    then have "unat (Allocate_map_size a sz alignment) = (R + 2 ^ k + unat alignment) mod 2 ^ 64"
      by (simp add: Allocate_map_size_def unat_word_ariths m0 mod_add_left_eq)
    then show ?thesis using True by (simp add: map_size_exact_def P R_def)
  next
    case False
    then show ?thesis by (simp add: Allocate_map_size_def m0 map_size_exact_def P R_def)
  qed
qed

lemma overflow_detected_nat:
  fixes s e :: nat
  assumes k: "k < 64" and s: "s < 2 ^ 64"
    and e: "e = 0 \<or> (\<exists>j. e = 2 ^ j \<and> k < j \<and> j < 64)"
    and ov: "2 ^ 64 \<le> (s + 2 ^ k - 1) div 2 ^ k * 2 ^ k + 2 ^ k + e"
  shows "((s + 2 ^ k - 1) div 2 ^ k * 2 ^ k + 2 ^ k + e) mod 2 ^ 64 < s"
proof -
  define R where "R = (s + 2 ^ k - 1) div 2 ^ k * (2::nat) ^ k"
  have R: "R < s + 2 ^ k" unfolding R_def using cd_split [of "2 ^ k" s] by simp
  have room: "2 * 2 ^ k + e \<le> (2::nat) ^ 64"
  proof -
    from e show ?thesis
    proof
      assume "e = 0"
      moreover have "(2::nat) ^ Suc k \<le> 2 ^ 64" using k by (intro power_increasing) simp_all
      ultimately show ?thesis by simp
    next
      assume "\<exists>j. e = 2 ^ j \<and> k < j \<and> j < 64"
      then obtain j where j: "e = 2 ^ j" "k < j" "j < 64" by blast
      have "(2::nat) ^ Suc k \<le> 2 ^ j" using j(2) by (intro power_increasing) simp_all
      moreover have "(2::nat) ^ Suc j \<le> 2 ^ 64" using j(3) by (intro power_increasing) simp_all
      ultimately show ?thesis using j(1) by simp
    qed
  qed
  define T where "T = R + 2 ^ k + e"
  have lo: "2 ^ 64 \<le> T" using ov by (simp add: T_def R_def)
  have hi: "T < 2 ^ 64 + s" using R room by (simp add: T_def)
  have "T mod 2 ^ 64 = (T - 2 ^ 64) mod 2 ^ 64" using lo by (rule le_mod_geq)
  also have "\<dots> = T - 2 ^ 64" using hi s by (intro mod_less) linarith
  also have "\<dots> < s" using hi lo by linarith
  finally show ?thesis by (simp add: T_def R_def)
qed

lemma pow2_less_exp:
  assumes "k < 64" "j < 64" "(2::uptr) ^ k < 2 ^ j" shows "k < j"
proof -
  have "(2::nat) ^ k < 2 ^ j" using assms by (simp add: word_less_nat_alt unat_pow2)
  then show ?thesis by simp
qed

lemma pow2_numerals: "pow2 4096" "pow2 8" "pow2 8192"
proof -
  have "pow2 (2 ^ 12)" "pow2 (2 ^ 3)" "pow2 (2 ^ 13)" by (simp_all only: pow2_I)
  then show "pow2 4096" "pow2 8" "pow2 8192" by simp_all
qed

subsection \<open>Overflow of the mapping length\<close>

text \<open>
  Claim C6. With a power-of-two page size and a power-of-two alignment, whenever the
  length of the mapping (the size rounded up to whole pages, plus a page, plus the
  alignment when it exceeds a page) does not fit the machine word, \<open>Allocate\<close> returns
  the null pointer and leaves the allocator as it was: the live list, the headers and
  the mappings are unchanged, and the mapping primitive is not reached.
\<close>

theorem allocate_overflow_null:
  assumes pg: "pow2 (page_size a)" and al: "pow2 alignment"
    and ov: "2 ^ 64 \<le> map_size_exact a sz alignment"
  shows "LargeMmapAllocator_Allocate MmapOrDie a sz alignment = Inr (0, a)"
proof -
  from pg obtain k where k: "k < 64" "page_size a = 2 ^ k" by (auto simp: pow2_def)
  from al obtain j where j: "j < 64" "alignment = 2 ^ j" by (auto simp: pow2_def)
  have P: "unat (page_size a) = 2 ^ k" using k by (simp add: unat_pow2)
  have A: "unat alignment = 2 ^ j" using j by (simp add: unat_pow2)
  have p2: "IsPowerOfTwo alignment" using j by (simp add: IsPowerOfTwo_pow2)
  define e where "e = (if alignment > page_size a then unat alignment else 0)"
  have ex: "map_size_exact a sz alignment = (unat sz + 2 ^ k - 1) div 2 ^ k * 2 ^ k + 2 ^ k + e"
    by (simp add: map_size_exact_def P e_def)
  have e: "e = 0 \<or> (\<exists>j. e = 2 ^ j \<and> k < j \<and> j < 64)"
  proof (cases "alignment > page_size a")
    case True
    then have "k < j" using k j by (auto intro: pow2_less_exp)
    then show ?thesis using True A j(1) by (auto simp: e_def)
  next
    case False
    then show ?thesis by (simp add: e_def)
  qed
  have s: "unat sz < 2 ^ 64" using unsigned_less [of sz] by simp
  have "map_size_exact a sz alignment mod 2 ^ 64 < unat sz"
    unfolding ex by (rule overflow_detected_nat [OF k(1) s e]) (use ov ex in simp)
  then have "Allocate_map_size a sz alignment < sz"
    by (simp add: word_less_nat_alt map_size_unat [OF pg])
  then show ?thesis using p2 by (simp add: LargeMmapAllocator_Allocate_def)
qed

theorem allocate_overflow_null_witness:
  "pow2 (page_size no_blocks) \<and> pow2 8 \<and>
   2 ^ 64 \<le> map_size_exact no_blocks 18446744073709551615 8 \<and>
   LargeMmapAllocator_Allocate (\<lambda>n. 65536) no_blocks 18446744073709551615 8 = Inr (0, no_blocks)"
proof -
  have a: "pow2 (page_size no_blocks)" using pow2_numerals by (simp add: no_blocks_def)
  have b: "2 ^ 64 \<le> map_size_exact no_blocks 18446744073709551615 8"
    by (simp add: map_size_exact_def no_blocks_def)
  show ?thesis
    using allocate_overflow_null [OF a pow2_numerals(2) b, of "\<lambda>n. 65536"] a b pow2_numerals
    by simp
qed

subsection \<open>The checks of Allocate\<close>

lemma align_up_nat:
  fixes x :: nat
  assumes P: "2 ^ k dvd x" and r: "x mod 2 ^ j \<noteq> 0"
  shows "k < j" and "2 ^ k \<le> x mod 2 ^ j" and "x mod 2 ^ j < 2 ^ j"
    and "(x + (2 ^ j - x mod 2 ^ j)) mod 2 ^ j = 0"
    and "2 ^ k dvd x + (2 ^ j - x mod 2 ^ j)"
proof -
  show kj: "k < j"
  proof (rule ccontr)
    assume "\<not> k < j"
    then have "(2::nat) ^ j dvd 2 ^ k" by (intro le_imp_power_dvd) simp
    then have "2 ^ j dvd x" using P by (rule dvd_trans)
    then show False using r by (simp add: dvd_eq_mod_eq_0)
  qed
  then have PA: "(2::nat) ^ k dvd 2 ^ j" by (intro le_imp_power_dvd) simp
  have Pr: "2 ^ k dvd x mod 2 ^ j" using P PA by (rule dvd_mod)
  then show "2 ^ k \<le> x mod 2 ^ j" using r by (intro dvd_imp_le) simp_all
  show lt: "x mod 2 ^ j < 2 ^ j" by simp
  have "x + (2 ^ j - x mod 2 ^ j) = (x - x mod 2 ^ j) + 2 ^ j"
    using lt by (simp add: mod_less_eq_dividend)
  also have "\<dots> = x div 2 ^ j * 2 ^ j + 2 ^ j" by (simp add: minus_mod_eq_div_mult)
  finally have e: "x + (2 ^ j - x mod 2 ^ j) = x div 2 ^ j * 2 ^ j + 2 ^ j" .
  show "(x + (2 ^ j - x mod 2 ^ j)) mod 2 ^ j = 0" unfolding e by simp
  have "2 ^ k dvd 2 ^ j - x mod 2 ^ j" using PA Pr by (rule dvd_diff_nat)
  then show "2 ^ k dvd x + (2 ^ j - x mod 2 ^ j)" using P by (rule dvd_add [rotated])
qed

lemma Allocate_link_succeeds:
  assumes "list_head a = 0 \<or> headers a (list_head a) \<noteq> None"
  shows "\<exists>a'. Allocate_link a h hdr = Inr a'"
  using assms unfolding Allocate_link_def
  by (auto simp: Let_def split: option.splits)

lemma Allocate_res_unat:
  assumes k: "k < 64" and j: "j < 64"
    and pg: "page_size a = 2 ^ k" and al: "alignment = 2 ^ j"
    and bd: "2 ^ k dvd unat b"
    and room: "unat b + 2 ^ k + (if k < j then 2 ^ j else 0) < 2 ^ 64"
  shows "2 ^ j dvd unat (Allocate_res a b alignment)"
    and "2 ^ k dvd unat (Allocate_res a b alignment)"
    and "unat b + 2 ^ k \<le> unat (Allocate_res a b alignment)"
    and "unat (Allocate_res a b alignment) \<le> unat b + 2 ^ k + (if k < j then 2 ^ j - 2 ^ k else 0)"
proof -
  define x where "x = unat b + (2::nat) ^ k"
  define r where "r = x mod 2 ^ j"
  have xlt: "x < 2 ^ LENGTH(64)" using room by (simp add: x_def)
  then have "unat b + unat ((2::uptr) ^ k) < 2 ^ LENGTH(64)"
    by (simp add: x_def unat_pow2 [OF k])
  then have "unat (b + 2 ^ k) = unat b + unat ((2::uptr) ^ k)" by (simp only: unat_add_lem)
  then have u0: "unat (b + 2 ^ k) = x" by (simp add: x_def unat_pow2 [OF k])
  have Px: "2 ^ k dvd x" using bd by (simp add: x_def)
  have m: "(b + 2 ^ k) AND (2 ^ j - 1) = (b + 2 ^ k) mod 2 ^ j" by (rule and_pow2m1 [OF j])
  have um: "unat ((b + 2 ^ k) mod 2 ^ j) = r"
    by (simp add: unat_mod_pow2 [OF j] u0 r_def)
  have main: "2 ^ j dvd unat (Allocate_res a b alignment) \<and>
      2 ^ k dvd unat (Allocate_res a b alignment) \<and>
      unat b + 2 ^ k \<le> unat (Allocate_res a b alignment) \<and>
      unat (Allocate_res a b alignment) \<le> unat b + 2 ^ k + (if k < j then 2 ^ j - 2 ^ k else 0)"
  proof (cases "r = 0")
    case True
    then have z: "(b + 2 ^ k) mod 2 ^ j = 0" using um by (simp add: unat_eq_0)
    then have res: "Allocate_res a b alignment = b + 2 ^ k"
      by (simp add: Allocate_res_def Let_def pg al m)
    have "2 ^ j dvd x" using True by (simp add: r_def dvd_eq_mod_eq_0)
    then show ?thesis
      using Px by (simp add: res u0) (simp add: x_def)
  next
    case False
    then have rn: "x mod 2 ^ j \<noteq> 0" by (simp add: r_def)
    note au = align_up_nat [OF Px rn, folded r_def]
    have nz: "(b + 2 ^ k) mod 2 ^ j \<noteq> 0"
    proof
      assume "(b + 2 ^ k) mod 2 ^ j = 0"
      then have "unat ((b + 2 ^ k) mod 2 ^ j) = 0" by (simp only: unat_0)
      then show False using um False by simp
    qed
    have res: "Allocate_res a b alignment = b + 2 ^ k + (2 ^ j - (b + 2 ^ k) mod 2 ^ j)"
      using nz by (simp add: Allocate_res_def Let_def pg al m)
    have le: "(b + 2 ^ k) mod 2 ^ j \<le> 2 ^ j"
      using au(3) by (simp add: word_le_nat_alt um unat_pow2 [OF j])
    have ud: "unat (2 ^ j - (b + 2 ^ k) mod 2 ^ j) = 2 ^ j - r"
      by (simp add: unat_sub [OF le] um unat_pow2 [OF j])
    have "x + (2 ^ j - r) \<le> x + 2 ^ j" by simp
    then have "x + (2 ^ j - r) < 2 ^ LENGTH(64)"
      using room au(1) by (simp add: x_def)
    then have "unat (b + 2 ^ k) + unat (2 ^ j - (b + 2 ^ k) mod 2 ^ j) < 2 ^ LENGTH(64)"
      by (simp only: u0 ud)
    then have "unat (b + 2 ^ k + (2 ^ j - (b + 2 ^ k) mod 2 ^ j)) =
               unat (b + 2 ^ k) + unat (2 ^ j - (b + 2 ^ k) mod 2 ^ j)"
      by (simp only: unat_add_lem)
    then have v: "unat (Allocate_res a b alignment) = x + (2 ^ j - r)"
      by (simp only: res u0 ud)
    have a1: "2 ^ j dvd x + (2 ^ j - r)" using au(4) by (simp add: dvd_eq_mod_eq_0)
    have a2: "unat b + 2 ^ k \<le> x + (2 ^ j - r)" by (simp add: x_def)
    have a3: "x + (2 ^ j - r) \<le> unat b + 2 ^ k + (if k < j then 2 ^ j - 2 ^ k else 0)"
      using au(1,2,3) by (simp add: x_def)
    show ?thesis
      unfolding v using a1 au(5) a2 a3 by simp
  qed
  show "2 ^ j dvd unat (Allocate_res a b alignment)"
    and "2 ^ k dvd unat (Allocate_res a b alignment)"
    and "unat b + 2 ^ k \<le> unat (Allocate_res a b alignment)"
    and "unat (Allocate_res a b alignment) \<le> unat b + 2 ^ k + (if k < j then 2 ^ j - 2 ^ k else 0)"
    using main by simp_all
qed

lemma word_eq_0_unat: "unat (w::uptr) = 0 \<Longrightarrow> w = 0"
  by (simp add: unat_eq_0)

text \<open>
  Claim C8. With a power-of-two page size and a power-of-two alignment, when the length
  of the mapping fits the machine word and the mapping primitive returns a page-aligned
  region of that length (one that ends below the top of the address space), \<open>Allocate\<close>
  passes all its checks and returns: the user pointer is a multiple of the alignment and
  of the page size, the user region ends within the mapping, and the header, one page
  below the user pointer, lies within the mapping at or after its start. The head of
  the live list, when there is one, must be a readable header.
\<close>

theorem allocate_checks_hold:
  fixes MmapOrDie a sz alignment
  defines "ms \<equiv> Allocate_map_size a sz alignment"
  defines "b \<equiv> MmapOrDie ms"
  defines "res \<equiv> Allocate_res a b alignment"
  assumes pg: "pow2 (page_size a)" and al: "pow2 alignment"
    and nof: "map_size_exact a sz alignment < 2 ^ 64"
    and os1: "b mod page_size a = 0"
    and os2: "unat b + map_size_exact a sz alignment < 2 ^ 64"
    and hd: "list_head a = 0 \<or> headers a (list_head a) \<noteq> None"
  shows "(\<exists>a'. LargeMmapAllocator_Allocate MmapOrDie a sz alignment = Inr (res, a')) \<and>
         res \<noteq> 0 \<and> res mod alignment = 0 \<and> res mod page_size a = 0 \<and>
         unat ms = map_size_exact a sz alignment \<and>
         unat res + unat sz \<le> unat b + unat ms \<and>
         GetHeader a res = Inr (res - page_size a) \<and>
         unat b \<le> unat (res - page_size a) \<and>
         unat (res - page_size a) + unat (page_size a) \<le> unat b + unat ms"
proof -
  from pg obtain k where k: "k < 64" "page_size a = 2 ^ k" by (auto simp: pow2_def)
  from al obtain j where j: "j < 64" "alignment = 2 ^ j" by (auto simp: pow2_def)
  have P: "unat (page_size a) = 2 ^ k" using k by (simp add: unat_pow2)
  have A: "unat alignment = 2 ^ j" using j by (simp add: unat_pow2)
  have p2: "IsPowerOfTwo alignment" using j by (simp add: IsPowerOfTwo_pow2)
  have gt: "(alignment > page_size a) = (k < j)"
    by (simp add: word_less_nat_alt P A)
  define R where "R = (unat sz + 2 ^ k - 1) div 2 ^ k * (2::nat) ^ k"
  define T where "T = R + 2 ^ k + (if k < j then 2 ^ j else 0)"
  have ex: "map_size_exact a sz alignment = T"
    by (simp add: map_size_exact_def P A gt T_def R_def)
  have ums: "unat ms = T"
    using nof by (simp add: ms_def map_size_unat [OF pg] ex)
  have sR: "unat sz \<le> R" unfolding R_def using cd_split [of "2 ^ k" "unat sz"] by simp
  have "unat (b mod 2 ^ k) = 0" using os1 by (simp add: k(2))
  then have bd: "2 ^ k dvd unat b"
    by (simp add: unat_mod_pow2 [OF k(1)] dvd_eq_mod_eq_0)
  have room: "unat b + 2 ^ k + (if k < j then 2 ^ j else 0) < 2 ^ 64"
    using os2 by (simp add: ex T_def)
  note ar = Allocate_res_unat [OF k(1) j(1) k(2) j(2) bd room, folded res_def]
  have fit: "unat res + unat sz \<le> unat b + T"
    using ar(4) sR by (auto simp: T_def split: if_splits)
  have lt: "unat b + T < 2 ^ 64" using os2 by (simp add: ex)
  have c0: "\<not> ms < sz" using sR by (simp add: word_less_nat_alt ums T_def)
  have m1: "res mod 2 ^ j = 0"
    using ar(1) by (intro word_eq_0_unat) (simp add: unat_mod_pow2 [OF j(1)] dvd_eq_mod_eq_0)
  have c1: "res AND (alignment - 1) = 0" by (simp add: j(2) and_pow2m1 [OF j(1)] m1)
  have m2: "res mod 2 ^ k = 0"
    using ar(2) by (intro word_eq_0_unat) (simp add: unat_mod_pow2 [OF k(1)] dvd_eq_mod_eq_0)
  have "unat res + unat sz < 2 ^ LENGTH(64)" using fit lt by simp
  then have u1: "unat (res + sz) = unat res + unat sz" by (simp only: unat_add_lem)
  have "unat b + unat ms < 2 ^ LENGTH(64)" using lt ums by simp
  then have u2: "unat (b + ms) = unat b + unat ms" by (simp only: unat_add_lem)
  have c2: "res + sz \<le> b + ms" using fit by (simp add: word_le_nat_alt u1 u2 ums)
  have pnz: "page_size a \<noteq> 0" using P by (auto simp: unat_eq_0)
  have c3: "GetHeader a res = Inr (res - page_size a)"
    using pnz m2 by (simp add: GetHeader_def k(2))
  define a1 where "a1 = a\<lparr>mapped := (b, ms) # mapped a\<rparr>"
  have "list_head a1 = 0 \<or> headers a1 (list_head a1) \<noteq> None" using hd by (simp add: a1_def)
  then obtain a' where lk: "Allocate_link a1 (res - page_size a)
      \<lparr>map_beg = b, map_size = ms, size' = sz, next' = 0, prev = 0\<rparr> = Inr a'"
    using Allocate_link_succeeds by blast
  have run: "LargeMmapAllocator_Allocate MmapOrDie a sz alignment = Inr (res, a')"
    unfolding LargeMmapAllocator_Allocate_def ms_def [symmetric] Let_def b_def [symmetric]
      res_def [symmetric]
    using p2 c0 c1 c2 c3 lk by (simp add: a1_def)
  have ple: "page_size a \<le> res" using ar(3) by (simp add: word_le_nat_alt P)
  have uh: "unat (res - page_size a) = unat res - 2 ^ k" by (simp add: unat_sub [OF ple] P)
  have rnz: "res \<noteq> 0"
  proof
    assume "res = 0"
    then have "unat res = 0" by simp
    then show False using ar(3) by simp
  qed
  have h1: "unat b \<le> unat (res - page_size a)" using ar(3) uh by simp
  have h2: "unat (res - page_size a) + unat (page_size a) \<le> unat b + unat ms"
    using ar(3) uh fit by (simp add: P ums)
  have m1': "res mod alignment = 0" and m2': "res mod page_size a = 0"
    using m1 m2 by (simp_all add: j(2) k(2))
  have ums': "unat ms = map_size_exact a sz alignment" using ums ex by simp
  have fit': "unat res + unat sz \<le> unat b + unat ms" using fit ums by simp
  show ?thesis
    using run rnz m1' m2' ums' fit' c3 h1 h2 by blast
qed

theorem allocate_checks_hold_witness:
  "pow2 (page_size no_blocks) \<and> pow2 8192 \<and>
   map_size_exact no_blocks 100 8192 < 2 ^ 64 \<and>
   Allocate_map_size no_blocks 100 8192 = 16384 \<and>
   (65536::uptr) mod page_size no_blocks = 0 \<and>
   unat (65536::uptr) + map_size_exact no_blocks 100 8192 < 2 ^ 64 \<and>
   list_head no_blocks = 0 \<and>
   Allocate_res no_blocks 65536 8192 = 73728 \<and>
   (\<exists>a'. LargeMmapAllocator_Allocate (\<lambda>n. 65536) no_blocks 100 8192 = Inr (73728, a')) \<and>
   (73728::uptr) mod 8192 = 0 \<and> (73728::uptr) mod 4096 = 0 \<and>
   unat (73728::uptr) + unat (100::uptr) \<le> unat (65536::uptr) + unat (16384::uptr) \<and>
   GetHeader no_blocks 73728 = Inr 69632 \<and>
   unat (65536::uptr) \<le> unat (69632::uptr)"
proof -
  have a: "pow2 (page_size no_blocks)" using pow2_numerals by (simp add: no_blocks_def)
  have ms: "Allocate_map_size no_blocks 100 8192 = 16384"
    by (simp add: Allocate_map_size_def RoundUpMapSize_def RoundUpTo_def no_blocks_def)
  have ex: "map_size_exact no_blocks 100 8192 = 16384"
    by (simp add: map_size_exact_def no_blocks_def)
  have res: "Allocate_res no_blocks 65536 8192 = 73728"
    by (simp add: Allocate_res_def no_blocks_def Let_def)
  have b: "map_size_exact no_blocks 100 8192 < 2 ^ 64" by (simp add: ex)
  have c: "(\<lambda>n. 65536::uptr) (Allocate_map_size no_blocks 100 8192) mod page_size no_blocks = 0"
    by (simp add: no_blocks_def)
  have d: "unat ((\<lambda>n. 65536::uptr) (Allocate_map_size no_blocks 100 8192)) +
           map_size_exact no_blocks 100 8192 < 2 ^ 64"
    by (simp add: ex)
  have e: "list_head no_blocks = 0 \<or> headers no_blocks (list_head no_blocks) \<noteq> None"
    by (simp add: no_blocks_def)
  show ?thesis
    using allocate_checks_hold [OF a pow2_numerals(3) b c d e] a pow2_numerals(3)
    by (simp add: ms ex res) (simp add: no_blocks_def)
qed

section \<open>The local cache\<close>

subsection \<open>Deallocate and the half drain\<close>

lemma DrainHalf_loop_take:
  "n \<le> length fl \<Longrightarrow> DrainHalf_loop n fl half = Inr (drop n fl, rev (take n fl) @ half)"
proof (induction n arbitrary: fl half)
  case 0
  then show ?case by simp
next
  case (Suc n)
  then obtain node rest where fl: "fl = node # rest" by (cases fl) auto
  with Suc show ?case by simp
qed

lemma unat_of_nat_small:
  assumes "n < 2 ^ 64" shows "unat (of_nat n :: uptr) = n"
proof -
  have "n < 2 ^ LENGTH(64)" using assms by simp
  then show ?thesis by (intro of_nat_inverse [OF refl])
qed

lemma cap_facts:
  assumes "caps_ok ops" "c < primary_kNumClasses ops"
  shows "1 \<le> unat (MaxCached (SizeClassMapT ops) c)"
    and "unat (MaxCached (SizeClassMapT ops) c) < 2 ^ 63"
    and "unat (2 * MaxCached (SizeClassMapT ops) c) = 2 * unat (MaxCached (SizeClassMapT ops) c)"
proof -
  let ?m = "MaxCached (SizeClassMapT ops) c"
  from assms have a: "1 \<le> ?m" and b: "?m < 2 ^ 63" by (auto simp: caps_ok_def)
  show c1: "1 \<le> unat ?m" using a by (simp add: word_le_nat_alt)
  have "unat ((2::uptr) ^ 63) = 2 ^ 63" by (rule unat_pow2) simp
  then show c2: "unat ?m < 2 ^ 63" using b by (simp add: word_less_nat_alt)
  have "unat (2::uptr) * unat ?m < 2 ^ LENGTH(64)" using c2 by simp
  then have "unat (2 * ?m) = unat (2::uptr) * unat ?m" by (simp only: unat_mult_lem)
  then show "unat (2 * ?m) = 2 * unat ?m" by simp
qed

lemma Deallocate_behaviour:
  assumes caps: "caps_ok ops" and inv: "cache_bounded ops cache"
    and c: "c < primary_kNumClasses ops"
  shows "Cache_Deallocate ops cache allocator c p =
     (if length (p # free_lists cache c) = 2 * unat (MaxCached (SizeClassMapT ops) c)
      then (case primary_BulkDeallocate ops allocator c
                   (rev (take (unat (MaxCached (SizeClassMapT ops) c)) (p # free_lists cache c))) of
              Inl e \<Rightarrow> Inl e
            | Inr (half', allocator') \<Rightarrow>
                Inr (cache\<lparr>free_lists := (free_lists cache)
                       (c := drop (unat (MaxCached (SizeClassMapT ops) c)) (p # free_lists cache c))\<rparr>,
                     allocator'))
      else Inr (cache\<lparr>free_lists := (free_lists cache)(c := p # free_lists cache c)\<rparr>, allocator))"
proof -
  let ?m = "unat (MaxCached (SizeClassMapT ops) c)"
  define fl where "fl = p # free_lists cache c"
  note cf = cap_facts [OF caps c]
  have len: "length fl \<le> 2 * ?m"
    using inv c by (simp add: cache_bounded_def Suc_le_eq fl_def)
  have small: "length fl < 2 ^ 64" using len cf(2) by simp
  have ul: "unat (of_nat (length fl) :: uptr) = length fl" by (rule unat_of_nat_small [OF small])
  have cmp: "((of_nat (length fl) :: uptr) \<ge> 2 * MaxCached (SizeClassMapT ops) c)
             = (length fl = 2 * ?m)"
    using len by (simp only: word_le_nat_alt ul cf(3)) auto
  have step: "Cache_Deallocate ops cache allocator c p =
     (if length fl = 2 * ?m
      then DrainHalf ops (cache\<lparr>free_lists := (free_lists cache)(c := fl)\<rparr>) allocator c
      else Inr (cache\<lparr>free_lists := (free_lists cache)(c := fl)\<rparr>, allocator))"
    using c unfolding Cache_Deallocate_def Let_def fl_def [symmetric]
    by (simp add: cmp)
  have dh: "DrainHalf ops (cache\<lparr>free_lists := (free_lists cache)(c := fl)\<rparr>) allocator c =
      (case primary_BulkDeallocate ops allocator c (rev (take ?m fl)) of
         Inl e \<Rightarrow> Inl e
       | Inr (half', allocator') \<Rightarrow>
           Inr (cache\<lparr>free_lists := (free_lists cache)(c := drop ?m fl)\<rparr>, allocator'))"
    if full: "length fl = 2 * ?m"
  proof -
    have "unat ((of_nat (length fl) :: uptr) div 2) = length fl div 2"
      by (simp only: unat_div ul) simp
    then have cnt: "unat ((of_nat (length fl) :: uptr) div 2) = ?m" using full by simp
    have loop: "DrainHalf_loop ?m fl [] = Inr (drop ?m fl, rev (take ?m fl))"
      using DrainHalf_loop_take [of ?m fl "[]"] full by simp
    show ?thesis
      unfolding DrainHalf_def Let_def
      by (simp add: cnt loop split: sum.splits)
  qed
  show ?thesis
    unfolding fl_def [symmetric] using step dh by simp
qed

subsection \<open>The bound is kept by every operation\<close>

lemma bounded_Init:
  assumes "caps_ok ops" shows "cache_bounded ops Cache_Init"
  unfolding cache_bounded_def
proof (intro allI impI)
  fix c assume "c < primary_kNumClasses ops"
  then have "1 \<le> unat (MaxCached (SizeClassMapT ops) c)" by (rule cap_facts(1) [OF assms])
  then show "length (free_lists Cache_Init c) < 2 * unat (MaxCached (SizeClassMapT ops) c)"
    by (simp add: Cache_Init_def)
qed

lemma bounded_Allocate:
  assumes caps: "caps_ok ops" and refill: "refill_ok ops" and inv: "cache_bounded ops cache"
    and run: "Cache_Allocate ops cache allocator c = Inr (res, cache', allocator')"
  shows "cache_bounded ops cache'"
proof -
  from run have c: "c < primary_kNumClasses ops"
    by (auto simp: Cache_Allocate_def split: if_splits)
  let ?m = "unat (MaxCached (SizeClassMapT ops) c)"
  from run c obtain rest where
    cache': "cache' = cache\<lparr>free_lists := (free_lists cache)(c := rest)\<rparr>"
    and src: "(free_lists cache c = [] \<and>
               primary_BulkAllocate ops allocator c [] = Inr (res # rest, allocator')) \<or>
              free_lists cache c = res # rest"
    by (auto simp: Cache_Allocate_def split: if_splits sum.splits list.splits)
  have "length rest < 2 * ?m"
  proof -
    from src show ?thesis
    proof
      assume "free_lists cache c = [] \<and>
              primary_BulkAllocate ops allocator c [] = Inr (res # rest, allocator')"
      then have eq: "primary_BulkAllocate ops allocator c [] = Inr (res # rest, allocator')"
        by simp
      have "length (res # rest) \<le> 2 * ?m"
        using refill c eq unfolding refill_ok_def by blast
      then show ?thesis by simp
    next
      assume "free_lists cache c = res # rest"
      moreover have "length (free_lists cache c) < 2 * ?m"
        using inv c by (simp add: cache_bounded_def)
      ultimately show ?thesis by simp
    qed
  qed
  then show ?thesis
    using inv unfolding cache_bounded_def cache' by simp
qed

lemma bounded_Deallocate:
  assumes caps: "caps_ok ops" and inv: "cache_bounded ops cache"
    and run: "Cache_Deallocate ops cache allocator c p = Inr (cache', allocator')"
  shows "cache_bounded ops cache'"
proof -
  from run have c: "c < primary_kNumClasses ops"
    by (auto simp: Cache_Deallocate_def split: if_splits)
  let ?m = "unat (MaxCached (SizeClassMapT ops) c)"
  note cf = cap_facts [OF caps c]
  have len: "length (p # free_lists cache c) \<le> 2 * ?m"
    using inv c by (simp add: cache_bounded_def Suc_le_eq)
  from run obtain fl where
    cache': "cache' = cache\<lparr>free_lists := (free_lists cache)(c := fl)\<rparr>"
    and fl: "(length (p # free_lists cache c) = 2 * ?m \<and> fl = drop ?m (p # free_lists cache c)) \<or>
             (length (p # free_lists cache c) \<noteq> 2 * ?m \<and> fl = p # free_lists cache c)"
    unfolding Deallocate_behaviour [OF caps inv c]
    by (auto split: if_splits sum.splits)
  have "length fl < 2 * ?m" using fl len cf(1) by auto
  then show ?thesis
    using inv unfolding cache_bounded_def cache' by simp
qed

lemma Drain_loop_empties:
  assumes "Drain_loop ops n i cache allocator = Inr (cache', allocator')"
    and "unat i + n < 2 ^ 64"
  shows "\<forall>c. (unat i \<le> unat c \<and> unat c < unat i + n \<longrightarrow> free_lists cache' c = []) \<and>
             (unat c < unat i \<longrightarrow> free_lists cache' c = free_lists cache c)"
  using assms
proof (induction n arbitrary: i cache allocator)
  case 0
  then show ?case by auto
next
  case (Suc n)
  from Suc.prems(1) obtain allocator1 where
    rec: "Drain_loop ops n (i + 1) (cache\<lparr>free_lists := (free_lists cache)(i := [])\<rparr>) allocator1
          = Inr (cache', allocator')"
    by (auto split: sum.splits if_splits)
  have "unat i + unat (1::uptr) < 2 ^ LENGTH(64)" using Suc.prems(2) by simp
  then have "unat (i + 1) = unat i + unat (1::uptr)" by (simp only: unat_add_lem)
  then have i1: "unat (i + 1) = Suc (unat i)" by simp
  have b: "unat (i + 1) + n < 2 ^ 64" using Suc.prems(2) i1 by simp
  note ih = Suc.IH [OF rec b, unfolded i1]
  show ?case
  proof (intro allI conjI impI)
    fix c :: uptr assume c: "unat i \<le> unat c \<and> unat c < unat i + Suc n"
    show "free_lists cache' c = []"
    proof (cases "c = i")
      case True
      then have "unat c < Suc (unat i)" by simp
      then have "free_lists cache' c = free_lists (cache\<lparr>free_lists := (free_lists cache)(i := [])\<rparr>) c"
        using ih by blast
      then show ?thesis using True by simp
    next
      case False
      then have "unat c \<noteq> unat i" by (simp add: word_unat_eq_iff)
      then have "Suc (unat i) \<le> unat c \<and> unat c < Suc (unat i) + n" using c by simp
      then show ?thesis using ih by blast
    qed
  next
    fix c :: uptr assume c: "unat c < unat i"
    then have "unat c < Suc (unat i)" and ne: "c \<noteq> i" by auto
    then have "free_lists cache' c = free_lists (cache\<lparr>free_lists := (free_lists cache)(i := [])\<rparr>) c"
      using ih by blast
    then show "free_lists cache' c = free_lists cache c" using ne by simp
  qed
qed

lemma bounded_Drain:
  assumes caps: "caps_ok ops"
    and run: "Cache_Drain ops cache allocator = Inr (cache', allocator')"
  shows "cache_bounded ops cache'"
proof -
  have b: "unat (0::uptr) + unat (primary_kNumClasses ops) < 2 ^ 64"
    using unsigned_less [of "primary_kNumClasses ops"] by simp
  note e = Drain_loop_empties [OF run [unfolded Cache_Drain_def] b]
  show ?thesis
    unfolding cache_bounded_def
  proof (intro allI impI)
    fix c assume c: "c < primary_kNumClasses ops"
    then have "unat (0::uptr) \<le> unat c \<and> unat c < unat (0::uptr) + unat (primary_kNumClasses ops)"
      by (simp add: word_less_nat_alt)
    then have "free_lists cache' c = []" using e by blast
    then show "length (free_lists cache' c) < 2 * unat (MaxCached (SizeClassMapT ops) c)"
      using cap_facts(1) [OF caps c] by simp
  qed
qed

lemma Drain_empties:
  assumes run: "Cache_Drain ops cache allocator = Inr (cache', allocator')"
    and c: "c < primary_kNumClasses ops"
  shows "free_lists cache' c = []"
proof -
  have b: "unat (0::uptr) + unat (primary_kNumClasses ops) < 2 ^ 64"
    using unsigned_less [of "primary_kNumClasses ops"] by simp
  note e = Drain_loop_empties [OF run [unfolded Cache_Drain_def] b]
  have "unat (0::uptr) \<le> unat c \<and> unat c < unat (0::uptr) + unat (primary_kNumClasses ops)"
    using c by (simp add: word_less_nat_alt)
  then show ?thesis using e by blast
qed

lemma Allocate_effect:
  assumes "Cache_Allocate ops cache allocator c = Inr (res, cache', allocator')"
  shows "(\<forall>c'. c' \<noteq> c \<longrightarrow> free_lists cache' c' = free_lists cache c') \<and>
         (if free_lists cache c = []
          then primary_BulkAllocate ops allocator c [] = Inr (res # free_lists cache' c, allocator')
          else free_lists cache c = res # free_lists cache' c)"
  using assms
  by (auto simp: Cache_Allocate_def split: if_splits sum.splits list.splits)

lemma reachable_bounded:
  assumes caps: "caps_ok ops" and refill: "refill_ok ops" and r: "reachable ops cache"
  shows "cache_bounded ops cache"
  using r
proof (induction rule: reachable.induct)
  case init
  show ?case by (rule bounded_Init [OF caps])
next
  case (allocate cache allocator class_id res cache' allocator')
  then show ?case using bounded_Allocate [OF caps refill] by blast
next
  case (deallocate cache allocator class_id p cache' allocator')
  then show ?case using bounded_Deallocate [OF caps] by blast
next
  case (drain cache allocator cache' allocator')
  then show ?case using bounded_Drain [OF caps] by blast
qed

subsection \<open>The example primary\<close>

lemma Default_bounds:
  "u0 DefaultSizeClassMap = 31" "u1 DefaultSizeClassMap = 87" "u2 DefaultSizeClassMap = 143"
  "u3 DefaultSizeClassMap = 199" "u4 DefaultSizeClassMap = 255"
  by (simp_all add: u0_def u1_def u2_def u3_def u4_def DefaultSizeClassMap_def)

lemma Default_caps:
  assumes "c < 256"
  shows "1 \<le> MaxCached DefaultSizeClassMap c \<and> MaxCached DefaultSizeClassMap c < 2 ^ 63"
proof -
  have "c \<le> 255" using assms by (simp add: word_le_nat_alt word_less_nat_alt)
  then show ?thesis
    by (simp add: MaxCached_def Default_bounds) (simp add: DefaultSizeClassMap_def)
qed

lemma caps_ok_bump: "caps_ok bump_primary"
  unfolding caps_ok_def
  using Default_caps by (simp add: bump_primary_def Default_values)

lemma refill_ok_bump: "refill_ok bump_primary"
  unfolding refill_ok_def
proof (intro allI impI)
  fix allocator class_id free_list allocator'
  assume c: "class_id < primary_kNumClasses bump_primary"
    and r: "primary_BulkAllocate bump_primary allocator class_id [] = Inr (free_list, allocator')"
  have "1 \<le> unat (MaxCached (SizeClassMapT bump_primary) class_id)"
    by (rule cap_facts(1) [OF caps_ok_bump c])
  moreover have "length free_list = 1" using r by (auto simp: bump_primary_def)
  ultimately show "length free_list \<le> 2 * unat (MaxCached (SizeClassMapT bump_primary) class_id)"
    by simp
qed

lemma MaxCached_255: "MaxCached (SizeClassMapT bump_primary) 255 = 1"
  by (simp add: bump_primary_def MaxCached_def Default_bounds) (simp add: DefaultSizeClassMap_def)

lemma two_le_one: "((2::uptr) \<le> 1) = False"
  by (simp add: word_le_nat_alt)

lemma reachable_one_cached: "reachable bump_primary one_cached"
proof -
  have "Cache_Deallocate bump_primary Cache_Init 0 255 2194728288256 = Inr (one_cached, 0)"
    by (simp add: Cache_Deallocate_def MaxCached_255 one_cached_def Cache_Init_def Let_def
          two_le_one)
       (simp add: bump_primary_def Default_values)
  then show ?thesis by (rule reachable.deallocate [OF reachable.init])
qed

lemma Size_255: "Size DefaultSizeClassMap 255 = 2097152"
  by (simp add: Size_def Default_bounds) (simp add: DefaultSizeClassMap_def)

lemma Drain_bump_returns:
  "\<exists>cache'. Drain_loop bump_primary n i cache a = Inr (cache', a)"
proof (induction n arbitrary: i cache)
  case 0
  show ?case by simp
next
  case (Suc n)
  have "primary_BulkDeallocate bump_primary a i (free_lists cache i) = Inr ([], a)"
    by (simp add: bump_primary_def)
  then show ?case using Suc.IH by simp
qed

lemma caps_ok_triple: "caps_ok triple_primary"
  unfolding caps_ok_def
  using Default_caps by (simp add: triple_primary_def bump_primary_def Default_values)

lemma MaxCached_255_triple: "MaxCached (SizeClassMapT triple_primary) 255 = 1"
  using MaxCached_255 by (simp add: triple_primary_def)

lemma triple_Allocate:
  "Cache_Allocate triple_primary Cache_Init 0 255 = Inr (2194728288256, two_cached, 3)"
  by (simp add: Cache_Allocate_def Cache_Init_def two_cached_def triple_primary_def
      bump_primary_def Default_values Size_255)

subsection \<open>The invariant of the cache\<close>

text \<open>
  Claim C4, amended. The cache keeps the free list of every class \<open>c\<close> strictly shorter
  than \<open>2 * MaxCached c\<close> on its own side: \<open>Deallocate\<close> keeps the bound and \<open>Drain\<close>
  empties every list, whatever the primary does. \<open>Deallocate\<close> keeps it this way: when
  the push brings the length to \<open>2 * MaxCached c\<close>, the front half of the list,
  \<open>size / 2\<close> nodes, goes to the primary through \<open>BulkDeallocate\<close> (in reverse order,
  each node being pushed on the front of \<open>half\<close>) and the rest stays; otherwise the node
  is pushed and nothing else happens. \<open>Allocate\<close> takes the front node off the list of
  its class, after \<open>BulkAllocate\<close> has refilled the list when it was empty, and leaves
  the other lists alone; it puts no bound of its own on a refill. So, starting from the
  zero-initialised cache, the bound holds after every completed \<open>Allocate\<close>,
  \<open>Deallocate\<close> and \<open>Drain\<close> provided every refill of an empty list brings at most
  \<open>2 * MaxCached c\<close> chunks. Every class is taken to have a cap of at least one, as in
  the instantiations. The claim as stated has no proviso on the refill; the
  counterexample below is a primary that refills with three chunks, where one
  \<open>Allocate\<close> of the class of cap one leaves a list of length two.
\<close>

theorem cache_lists_bounded:
  assumes caps: "caps_ok ops"
  shows
   "(refill_ok ops \<and> reachable ops cache \<longrightarrow>
       cache_bounded ops cache \<and>
       (class_id < primary_kNumClasses ops \<longrightarrow>
          length (free_lists cache class_id)
            < 2 * unat (MaxCached (SizeClassMapT ops) class_id))) \<and>
    (cache_bounded ops cache \<longrightarrow>
       (\<forall>allocator c p cache' allocator'.
          Cache_Deallocate ops cache allocator c p = Inr (cache', allocator') \<longrightarrow>
          cache_bounded ops cache')) \<and>
    (\<forall>allocator cache' allocator'.
       Cache_Drain ops cache allocator = Inr (cache', allocator') \<longrightarrow>
       (\<forall>c. c < primary_kNumClasses ops \<longrightarrow> free_lists cache' c = [])) \<and>
    (\<forall>allocator c res cache' allocator'.
       Cache_Allocate ops cache allocator c = Inr (res, cache', allocator') \<longrightarrow>
       (\<forall>c'. c' \<noteq> c \<longrightarrow> free_lists cache' c' = free_lists cache c') \<and>
       (if free_lists cache c = []
        then primary_BulkAllocate ops allocator c [] = Inr (res # free_lists cache' c, allocator')
        else free_lists cache c = res # free_lists cache' c)) \<and>
    (cache_bounded ops cache \<and> class_id < primary_kNumClasses ops \<longrightarrow>
       (\<forall>allocator p.
          Cache_Deallocate ops cache allocator class_id p =
          (if length (p # free_lists cache class_id)
                = 2 * unat (MaxCached (SizeClassMapT ops) class_id)
           then (case primary_BulkDeallocate ops allocator class_id
                        (rev (take (unat (MaxCached (SizeClassMapT ops) class_id))
                                (p # free_lists cache class_id))) of
                   Inl e \<Rightarrow> Inl e
                 | Inr (half', allocator') \<Rightarrow>
                     Inr (cache\<lparr>free_lists := (free_lists cache)
                            (class_id := drop (unat (MaxCached (SizeClassMapT ops) class_id))
                                           (p # free_lists cache class_id))\<rparr>,
                          allocator'))
           else Inr (cache\<lparr>free_lists := (free_lists cache)
                             (class_id := p # free_lists cache class_id)\<rparr>, allocator))))"
proof (intro conjI)
  show "refill_ok ops \<and> reachable ops cache \<longrightarrow>
       cache_bounded ops cache \<and>
       (class_id < primary_kNumClasses ops \<longrightarrow>
          length (free_lists cache class_id)
            < 2 * unat (MaxCached (SizeClassMapT ops) class_id))"
  proof
    assume a: "refill_ok ops \<and> reachable ops cache"
    then have inv: "cache_bounded ops cache"
      using reachable_bounded [OF caps] by blast
    then show "cache_bounded ops cache \<and>
       (class_id < primary_kNumClasses ops \<longrightarrow>
          length (free_lists cache class_id)
            < 2 * unat (MaxCached (SizeClassMapT ops) class_id))"
      by (simp add: cache_bounded_def)
  qed
next
  show "cache_bounded ops cache \<longrightarrow>
       (\<forall>allocator c p cache' allocator'.
          Cache_Deallocate ops cache allocator c p = Inr (cache', allocator') \<longrightarrow>
          cache_bounded ops cache')"
    using bounded_Deallocate [OF caps] by blast
next
  show "\<forall>allocator cache' allocator'.
       Cache_Drain ops cache allocator = Inr (cache', allocator') \<longrightarrow>
       (\<forall>c. c < primary_kNumClasses ops \<longrightarrow> free_lists cache' c = [])"
    by (intro allI impI) (rule Drain_empties)
next
  show "\<forall>allocator c res cache' allocator'.
       Cache_Allocate ops cache allocator c = Inr (res, cache', allocator') \<longrightarrow>
       (\<forall>c'. c' \<noteq> c \<longrightarrow> free_lists cache' c' = free_lists cache c') \<and>
       (if free_lists cache c = []
        then primary_BulkAllocate ops allocator c [] = Inr (res # free_lists cache' c, allocator')
        else free_lists cache c = res # free_lists cache' c)"
    by (intro allI impI) (rule Allocate_effect)
next
  show "cache_bounded ops cache \<and> class_id < primary_kNumClasses ops \<longrightarrow>
       (\<forall>allocator p.
          Cache_Deallocate ops cache allocator class_id p =
          (if length (p # free_lists cache class_id)
                = 2 * unat (MaxCached (SizeClassMapT ops) class_id)
           then (case primary_BulkDeallocate ops allocator class_id
                        (rev (take (unat (MaxCached (SizeClassMapT ops) class_id))
                                (p # free_lists cache class_id))) of
                   Inl e \<Rightarrow> Inl e
                 | Inr (half', allocator') \<Rightarrow>
                     Inr (cache\<lparr>free_lists := (free_lists cache)
                            (class_id := drop (unat (MaxCached (SizeClassMapT ops) class_id))
                                           (p # free_lists cache class_id))\<rparr>,
                          allocator'))
           else Inr (cache\<lparr>free_lists := (free_lists cache)
                             (class_id := p # free_lists cache class_id)\<rparr>, allocator)))"
  proof (intro impI allI)
    fix allocator p
    assume "cache_bounded ops cache \<and> class_id < primary_kNumClasses ops"
    then have inv: "cache_bounded ops cache" and c: "class_id < primary_kNumClasses ops"
      by simp_all
    show "Cache_Deallocate ops cache allocator class_id p =
          (if length (p # free_lists cache class_id)
                = 2 * unat (MaxCached (SizeClassMapT ops) class_id)
           then (case primary_BulkDeallocate ops allocator class_id
                        (rev (take (unat (MaxCached (SizeClassMapT ops) class_id))
                                (p # free_lists cache class_id))) of
                   Inl e \<Rightarrow> Inl e
                 | Inr (half', allocator') \<Rightarrow>
                     Inr (cache\<lparr>free_lists := (free_lists cache)
                            (class_id := drop (unat (MaxCached (SizeClassMapT ops) class_id))
                                           (p # free_lists cache class_id))\<rparr>,
                          allocator'))
           else Inr (cache\<lparr>free_lists := (free_lists cache)
                             (class_id := p # free_lists cache class_id)\<rparr>, allocator))"
      by (rule Deallocate_behaviour [OF caps inv c])
  qed
qed

theorem cache_lists_bounded_witness:
  "caps_ok bump_primary \<and> refill_ok bump_primary \<and> reachable bump_primary one_cached \<and>
   cache_bounded bump_primary one_cached \<and>
   255 < primary_kNumClasses bump_primary \<and>
   MaxCached (SizeClassMapT bump_primary) 255 = 1 \<and>
   length (free_lists one_cached 255) < 2 * unat (1::uptr) \<and>
   Cache_Deallocate bump_primary one_cached 0 255 2194730385408 =
     Inr (one_cached\<lparr>free_lists := (free_lists one_cached)(255 := [2194728288256])\<rparr>, 0) \<and>
   cache_bounded bump_primary
     (one_cached\<lparr>free_lists := (free_lists one_cached)(255 := [2194728288256])\<rparr>) \<and>
   Cache_Allocate bump_primary one_cached 0 255 =
     Inr (2194728288256, one_cached\<lparr>free_lists := (free_lists one_cached)(255 := [])\<rparr>, 0) \<and>
   free_lists one_cached 255 =
     2194728288256 # free_lists (one_cached\<lparr>free_lists := (free_lists one_cached)(255 := [])\<rparr>) 255 \<and>
   Cache_Allocate bump_primary Cache_Init 0 255 =
     Inr (2194728288256, Cache_Init\<lparr>free_lists := (free_lists Cache_Init)(255 := [])\<rparr>, 1) \<and>
   primary_BulkAllocate bump_primary 0 255 [] =
     Inr (2194728288256 #
          free_lists (Cache_Init\<lparr>free_lists := (free_lists Cache_Init)(255 := [])\<rparr>) 255, 1) \<and>
   (\<exists>cache'. Cache_Drain bump_primary one_cached 0 = Inr (cache', 0) \<and>
              free_lists cache' 255 = [])"
proof -
  note t = cache_lists_bounded [OF caps_ok_bump, where cache = one_cached and class_id = 255]
  note t0 = cache_lists_bounded [OF caps_ok_bump, where cache = Cache_Init and class_id = 255]
  have k: "255 < primary_kNumClasses bump_primary"
    by (simp add: bump_primary_def Default_values)
  note t1 = t [THEN conjunct1, rule_format, OF conjI [OF refill_ok_bump reachable_one_cached]]
  have inv: "cache_bounded bump_primary one_cached" by (rule t1 [THEN conjunct1])
  have len: "length (free_lists one_cached 255)
              < 2 * unat (MaxCached (SizeClassMapT bump_primary) 255)"
    by (rule t1 [THEN conjunct2, rule_format, OF k])
  have bd: "primary_BulkDeallocate bump_primary 0 255 [2194730385408] = Inr ([], 0)"
    by (simp add: bump_primary_def)
  have de: "Cache_Deallocate bump_primary one_cached 0 255 2194730385408 =
     Inr (one_cached\<lparr>free_lists := (free_lists one_cached)(255 := [2194728288256])\<rparr>, 0)"
    using t [THEN conjunct2, THEN conjunct2, THEN conjunct2, THEN conjunct2, rule_format,
        OF conjI [OF inv k], of 0 2194730385408]
    by (simp add: MaxCached_255 bd) (simp add: one_cached_def)
  have inv': "cache_bounded bump_primary
     (one_cached\<lparr>free_lists := (free_lists one_cached)(255 := [2194728288256])\<rparr>)"
    by (rule t [THEN conjunct2, THEN conjunct1, rule_format, OF inv de])
  have al: "Cache_Allocate bump_primary one_cached 0 255 =
     Inr (2194728288256, one_cached\<lparr>free_lists := (free_lists one_cached)(255 := [])\<rparr>, 0)"
    using k by (simp add: Cache_Allocate_def one_cached_def)
  have al': "free_lists one_cached 255 =
     2194728288256 # free_lists (one_cached\<lparr>free_lists := (free_lists one_cached)(255 := [])\<rparr>) 255"
    using t [THEN conjunct2, THEN conjunct2, THEN conjunct2, THEN conjunct1, rule_format, OF al]
    by (simp add: one_cached_def)
  have al0: "Cache_Allocate bump_primary Cache_Init 0 255 =
     Inr (2194728288256, Cache_Init\<lparr>free_lists := (free_lists Cache_Init)(255 := [])\<rparr>, 1)"
    using k by (simp add: Cache_Allocate_def Cache_Init_def bump_primary_def Size_255)
  have e0: "free_lists Cache_Init 255 = []" by (simp add: Cache_Init_def)
  have rf: "primary_BulkAllocate bump_primary 0 255 [] =
     Inr (2194728288256 #
          free_lists (Cache_Init\<lparr>free_lists := (free_lists Cache_Init)(255 := [])\<rparr>) 255, 1)"
    using t0 [THEN conjunct2, THEN conjunct2, THEN conjunct2, THEN conjunct1, rule_format,
        OF al0] e0
    by simp
  obtain cache' where dr: "Cache_Drain bump_primary one_cached 0 = Inr (cache', 0)"
    unfolding Cache_Drain_def using Drain_bump_returns by blast
  have "free_lists cache' 255 = []"
    by (rule t [THEN conjunct2, THEN conjunct2, THEN conjunct1, rule_format, OF dr k])
  then have ex: "\<exists>cache'. Cache_Drain bump_primary one_cached 0 = Inr (cache', 0) \<and>
              free_lists cache' 255 = []"
    using dr by blast
  have len1: "length (free_lists one_cached 255) < 2 * unat (1::uptr)"
    using len by (simp add: MaxCached_255)
  show ?thesis
    using caps_ok_bump refill_ok_bump reachable_one_cached inv k MaxCached_255 len1 de inv'
      al al' al0 rf ex
    by (intro conjI)
qed

theorem cache_lists_bounded_counterexample:
  "caps_ok triple_primary \<and>
   Cache_Allocate triple_primary Cache_Init 0 255 = Inr (2194728288256, two_cached, 3) \<and>
   reachable triple_primary two_cached \<and>
   255 < primary_kNumClasses triple_primary \<and>
   MaxCached (SizeClassMapT triple_primary) 255 = 1 \<and>
   length (free_lists two_cached 255) = 2 \<and>
   \<not> length (free_lists two_cached 255)
       < 2 * unat (MaxCached (SizeClassMapT triple_primary) 255)"
proof -
  have r: "reachable triple_primary two_cached"
    by (rule reachable.allocate [OF reachable.init triple_Allocate])
  have k: "255 < primary_kNumClasses triple_primary"
    by (simp add: triple_primary_def bump_primary_def Default_values)
  have l: "length (free_lists two_cached 255) = 2" by (simp add: two_cached_def)
  show ?thesis
    using caps_ok_triple triple_Allocate r k l by (simp add: MaxCached_255_triple)
qed

section \<open>The combined allocator\<close>

subsection \<open>Copying bytes\<close>

lemma copy_bytes_outside:
  "(\<forall>i<n. a \<noteq> dst + of_nat i) \<Longrightarrow> copy_bytes n mem dst src a = mem a"
  by (induction n) (auto simp: Let_def)

lemma of_nat_neq_uptr:
  assumes "i < j" "j < 2 ^ 64" shows "(of_nat i :: uptr) \<noteq> of_nat j"
proof
  assume "(of_nat i :: uptr) = of_nat j"
  then have "unat (of_nat i :: uptr) = unat (of_nat j :: uptr)" by simp
  moreover have "unat (of_nat i :: uptr) = i" using assms by (intro unat_of_nat_small) simp
  moreover have "unat (of_nat j :: uptr) = j" using assms by (intro unat_of_nat_small) simp
  ultimately show False using assms(1) by simp
qed

lemma copy_bytes_copied:
  assumes "n \<le> 2 ^ 64"
    and "\<forall>i<n. \<forall>j<n. dst + of_nat i \<noteq> src + of_nat j"
    and "i < n"
  shows "copy_bytes n mem dst src (dst + of_nat i) = mem (src + of_nat i)"
  using assms
proof (induction n)
  case 0
  then show ?case by simp
next
  case (Suc n)
  have dis: "\<forall>i<n. \<forall>j<n. dst + of_nat i \<noteq> src + of_nat j" using Suc.prems(2) by simp
  have n: "n \<le> 2 ^ 64" "n < 2 ^ 64" using Suc.prems(1) by simp_all
  show ?case
  proof (cases "i = n")
    case True
    have "\<forall>k<n. src + of_nat n \<noteq> dst + of_nat k"
      using Suc.prems(2) by (metis less_Suc_eq)
    then have "copy_bytes n mem dst src (src + of_nat n) = mem (src + of_nat n)"
      by (rule copy_bytes_outside)
    then show ?thesis using True by (simp add: Let_def)
  next
    case False
    then have i: "i < n" using Suc.prems(3) by simp
    have "(of_nat i :: uptr) \<noteq> of_nat n" by (rule of_nat_neq_uptr [OF i n(2)])
    then have ne: "dst + of_nat i \<noteq> dst + of_nat n" by simp
    have "copy_bytes n mem dst src (dst + of_nat i) = mem (src + of_nat i)"
      by (rule Suc.IH [OF n(1) dis i])
    then show ?thesis using ne by (simp add: Let_def)
  qed
qed

lemma Min_uptr_unat: "unat (Min_uptr a b) = min (unat a) (unat b)"
  by (simp add: Min_uptr_def word_less_nat_alt min_def)

subsection \<open>The examples\<close>

lemma one_block_PointerIsMine:
  "Combined_PointerIsMine bump_primary small_heap 69632 = Some (Inr True)"
  by (simp add: Combined_PointerIsMine_def small_heap_def bump_primary_def
      LargeMmapAllocator_PointerIsMine_def one_block_def PointerIsMine_loop.simps GetUser_def)

lemma one_block_size:
  "Combined_GetActuallyAllocatedSize bump_primary small_heap 69632 = Inr 4096"
  by (simp add: Combined_GetActuallyAllocatedSize_def small_heap_def bump_primary_def
      LargeMmapAllocator_GetActuallyAllocatedSize_def one_block_def GetHeader_def
      RoundUpMapSize_def RoundUpTo_def)

lemma one_block_Deallocate:
  "Combined_Deallocate bump_primary small_heap Cache_Init 69632 =
     Inr (Cache_Init, small_heap\<lparr>secondary := UnmapOrDie (one_block\<lparr>list_head := 0\<rparr>) 65536 8192\<rparr>)"
  by (simp add: Combined_Deallocate_def small_heap_def bump_primary_def
      LargeMmapAllocator_Deallocate_def one_block_def GetHeader_def Let_def)

lemma second_block_Allocate:
  "Combined_Allocate bump_primary (\<lambda>n. 1048576) small_heap Cache_Init 4194304 8 False =
     Inr (1052672, Cache_Init, small_heap\<lparr>secondary := two_blocks\<rparr>)"
  by (simp add: Combined_Allocate_def small_heap_def bump_primary_def Default_values
      LargeMmapAllocator_Allocate_def IsPowerOfTwo_def Allocate_map_size_def Allocate_res_def
      Allocate_link_def GetHeader_def RoundUpMapSize_def RoundUpTo_def one_block_def
      two_blocks_def Let_def)

lemma two_blocks_Deallocate:
  "Combined_Deallocate bump_primary (small_heap\<lparr>secondary := two_blocks, bytes := m\<rparr>)
     Cache_Init 69632 =
   Inr (Cache_Init, small_heap\<lparr>secondary :=
     UnmapOrDie (two_blocks\<lparr>headers := (headers two_blocks)(1048576 \<mapsto>
         \<lparr>map_beg = 1048576, map_size = 4198400, size' = 4194304, next' = 0, prev = 0\<rparr>)\<rparr>)
       65536 8192, bytes := m\<rparr>)"
  by (simp add: Combined_Deallocate_def small_heap_def bump_primary_def
      LargeMmapAllocator_Deallocate_def two_blocks_def GetHeader_def Let_def)

lemma regions_apart:
  "\<forall>i<4096. \<forall>j<4096. (1052672::uptr) + of_nat i \<noteq> 69632 + of_nat j"
proof (intro allI impI)
  fix i j :: nat assume i: "i < 4096" and j: "j < 4096"
  have ui: "unat (of_nat i :: uptr) = i" using i by (intro unat_of_nat_small) simp
  have uj: "unat (of_nat j :: uptr) = j" using j by (intro unat_of_nat_small) simp
  have "unat (1052672::uptr) + unat (of_nat i :: uptr) < 2 ^ LENGTH(64)" using i ui by simp
  then have a: "unat ((1052672::uptr) + of_nat i) = 1052672 + i"
    by (simp only: unat_add_lem) (simp add: ui)
  have "unat (69632::uptr) + unat (of_nat j :: uptr) < 2 ^ LENGTH(64)" using j uj by simp
  then have b: "unat ((69632::uptr) + of_nat j) = 69632 + j"
    by (simp only: unat_add_lem) (simp add: uj)
  show "(1052672::uptr) + of_nat i \<noteq> 69632 + of_nat j"
  proof
    assume "(1052672::uptr) + of_nat i = 69632 + of_nat j"
    then have "unat ((1052672::uptr) + of_nat i) = unat ((69632::uptr) + of_nat j)"
      by (rule arg_cong)
    then show False using a b j by simp
  qed
qed

subsection \<open>Allocate\<close>

text \<open>
  Claim C5. \<open>Allocate\<close> of the combined allocator treats a requested size of 0 as a
  request for 1 byte before anything else, and whenever \<open>size + alignment\<close> wraps around
  the machine word it returns the null pointer, with the cache and both allocators left
  as they were: no backend is reached.
\<close>

theorem combined_allocate_zero_and_overflow:
  "Combined_Allocate ops MmapOrDie st cache 0 alignment cleared =
     Combined_Allocate ops MmapOrDie st cache 1 alignment cleared \<and>
   (sz + alignment < sz \<longrightarrow>
      Combined_Allocate ops MmapOrDie st cache sz alignment cleared = Inr (0, cache, st))"
proof
  show "Combined_Allocate ops MmapOrDie st cache 0 alignment cleared =
        Combined_Allocate ops MmapOrDie st cache 1 alignment cleared"
    by (simp add: Combined_Allocate_def)
  show "sz + alignment < sz \<longrightarrow>
        Combined_Allocate ops MmapOrDie st cache sz alignment cleared = Inr (0, cache, st)"
  proof
    assume w: "sz + alignment < sz"
    then have "sz \<noteq> 0" by auto
    then show "Combined_Allocate ops MmapOrDie st cache sz alignment cleared = Inr (0, cache, st)"
      using w by (simp add: Combined_Allocate_def)
  qed
qed

theorem combined_allocate_zero_and_overflow_witness:
  "(18446744073709551615::uptr) + 8 < 18446744073709551615 \<and>
   Combined_Allocate bump_primary (\<lambda>n. 1048576) small_heap Cache_Init 0 8 True =
     Combined_Allocate bump_primary (\<lambda>n. 1048576) small_heap Cache_Init 1 8 True \<and>
   Combined_Allocate bump_primary (\<lambda>n. 1048576) small_heap Cache_Init 18446744073709551615 8 True
     = Inr (0, Cache_Init, small_heap)"
proof -
  have w: "(18446744073709551615::uptr) + 8 < 18446744073709551615" by simp
  show ?thesis
    using combined_allocate_zero_and_overflow [of bump_primary "\<lambda>n. 1048576" small_heap
        Cache_Init 8 True 18446744073709551615] w
    by simp
qed

subsection \<open>Reallocate\<close>

text \<open>
  Claim C9, amended. \<open>Reallocate\<close> of a null pointer is \<open>Allocate\<close>. With a pointer and
  a new size of 0 it deallocates the pointer and returns the null pointer. Otherwise, for
  a pointer the allocator owns, when the allocation of the new region succeeds, it
  copies exactly \<open>min (GetActuallyAllocatedSize p) new_size\<close> bytes to the new region (the
  bytes outside the destination keep their values, and the destination holds the bytes
  of the old region one for one when the two regions do not overlap), deallocates the
  old region and returns the new pointer. The claim as stated promises the copy and the
  new pointer in every case; the counterexample below is a request whose size wraps,
  where \<open>Reallocate\<close> returns the null pointer and no byte is copied.
\<close>

theorem combined_reallocate:
  "Combined_Reallocate ops MmapOrDie st cache 0 new_size alignment =
     Some (Combined_Allocate ops MmapOrDie st cache new_size alignment False) \<and>
   (p \<noteq> 0 \<longrightarrow>
      Combined_Reallocate ops MmapOrDie st cache p 0 alignment =
        Some (case Combined_Deallocate ops st cache p of
                Inl e \<Rightarrow> Inl e
              | Inr (cache', st') \<Rightarrow> Inr (0, cache', st'))) \<and>
   (p \<noteq> 0 \<and> new_size \<noteq> 0 \<and>
    Combined_PointerIsMine ops st p = Some (Inr True) \<and>
    Combined_GetActuallyAllocatedSize ops st p = Inr old_size \<and>
    Combined_Allocate ops MmapOrDie st cache new_size alignment False = Inr (new_p, cache1, st1) \<and>
    new_p \<noteq> 0 \<longrightarrow>
      Combined_Reallocate ops MmapOrDie st cache p new_size alignment =
        Some (case Combined_Deallocate ops
                     (st1\<lparr>bytes := internal_memcpy (bytes st1) new_p p
                                       (Min_uptr new_size old_size)\<rparr>) cache1 p of
                Inl e \<Rightarrow> Inl e
              | Inr (cache2, st3) \<Rightarrow> Inr (new_p, cache2, st3)) \<and>
      unat (Min_uptr new_size old_size) = min (unat old_size) (unat new_size) \<and>
      (\<forall>a. (\<forall>i < unat (Min_uptr new_size old_size). a \<noteq> new_p + of_nat i) \<longrightarrow>
           internal_memcpy (bytes st1) new_p p (Min_uptr new_size old_size) a = bytes st1 a) \<and>
      ((\<forall>i < unat (Min_uptr new_size old_size). \<forall>j < unat (Min_uptr new_size old_size).
           new_p + of_nat i \<noteq> p + of_nat j) \<longrightarrow>
       (\<forall>i < unat (Min_uptr new_size old_size).
           internal_memcpy (bytes st1) new_p p (Min_uptr new_size old_size) (new_p + of_nat i)
           = bytes st1 (p + of_nat i))))"
proof (intro conjI impI)
  show "Combined_Reallocate ops MmapOrDie st cache 0 new_size alignment =
        Some (Combined_Allocate ops MmapOrDie st cache new_size alignment False)"
    by (simp add: Combined_Reallocate_def)
next
  assume "p \<noteq> 0"
  then show "Combined_Reallocate ops MmapOrDie st cache p 0 alignment =
        Some (case Combined_Deallocate ops st cache p of
                Inl e \<Rightarrow> Inl e
              | Inr (cache', st') \<Rightarrow> Inr (0, cache', st'))"
    by (simp add: Combined_Reallocate_def)
next
  assume "p \<noteq> 0 \<and> new_size \<noteq> 0 \<and>
    Combined_PointerIsMine ops st p = Some (Inr True) \<and>
    Combined_GetActuallyAllocatedSize ops st p = Inr old_size \<and>
    Combined_Allocate ops MmapOrDie st cache new_size alignment False = Inr (new_p, cache1, st1) \<and>
    new_p \<noteq> 0"
  then show "Combined_Reallocate ops MmapOrDie st cache p new_size alignment =
        Some (case Combined_Deallocate ops
                     (st1\<lparr>bytes := internal_memcpy (bytes st1) new_p p
                                       (Min_uptr new_size old_size)\<rparr>) cache1 p of
                Inl e \<Rightarrow> Inl e
              | Inr (cache2, st3) \<Rightarrow> Inr (new_p, cache2, st3))"
    by (simp add: Combined_Reallocate_def)
next
  show "unat (Min_uptr new_size old_size) = min (unat old_size) (unat new_size)"
    by (simp add: Min_uptr_unat min.commute)
next
  show "\<forall>a. (\<forall>i < unat (Min_uptr new_size old_size). a \<noteq> new_p + of_nat i) \<longrightarrow>
           internal_memcpy (bytes st1) new_p p (Min_uptr new_size old_size) a = bytes st1 a"
    by (simp add: internal_memcpy_def copy_bytes_outside)
next
  assume dis: "\<forall>i < unat (Min_uptr new_size old_size). \<forall>j < unat (Min_uptr new_size old_size).
           new_p + of_nat i \<noteq> p + of_nat j"
  have "unat (Min_uptr new_size old_size) < 2 ^ LENGTH(64)" by (rule unsigned_less)
  then have n: "unat (Min_uptr new_size old_size) \<le> 2 ^ 64" by simp
  show "\<forall>i < unat (Min_uptr new_size old_size).
           internal_memcpy (bytes st1) new_p p (Min_uptr new_size old_size) (new_p + of_nat i)
           = bytes st1 (p + of_nat i)"
    unfolding internal_memcpy_def using copy_bytes_copied [OF n dis] by blast
qed

theorem combined_reallocate_witness:
  "(69632::uptr) \<noteq> 0 \<and> (4194304::uptr) \<noteq> 0 \<and>
   Combined_PointerIsMine bump_primary small_heap 69632 = Some (Inr True) \<and>
   Combined_GetActuallyAllocatedSize bump_primary small_heap 69632 = Inr 4096 \<and>
   Combined_Allocate bump_primary (\<lambda>n. 1048576) small_heap Cache_Init 4194304 8 False =
     Inr (1052672, Cache_Init, small_heap\<lparr>secondary := two_blocks\<rparr>) \<and>
   (1052672::uptr) \<noteq> 0 \<and>
   unat (Min_uptr 4194304 4096) = 4096 \<and>
   Combined_Reallocate bump_primary (\<lambda>n. 1048576) small_heap Cache_Init 69632 0 8 =
     Some (Inr (0, Cache_Init,
       small_heap\<lparr>secondary := UnmapOrDie (one_block\<lparr>list_head := 0\<rparr>) 65536 8192\<rparr>)) \<and>
   Combined_Reallocate bump_primary (\<lambda>n. 1048576) small_heap Cache_Init 69632 4194304 8 =
     Some (Inr (1052672, Cache_Init,
       small_heap\<lparr>secondary :=
         UnmapOrDie (two_blocks\<lparr>headers := (headers two_blocks)(1048576 \<mapsto>
             \<lparr>map_beg = 1048576, map_size = 4198400, size' = 4194304, next' = 0, prev = 0\<rparr>)\<rparr>)
           65536 8192,
         bytes := internal_memcpy (bytes small_heap) 1052672 69632 (Min_uptr 4194304 4096)\<rparr>)) \<and>
   internal_memcpy (bytes small_heap) 1052672 69632 (Min_uptr 4194304 4096)
       (1052672 + of_nat 4095) = bytes small_heap (69632 + of_nat 4095)"
proof -
  have m: "unat (Min_uptr 4194304 4096) = 4096" by (simp add: Min_uptr_def)
  have b: "bytes (small_heap\<lparr>secondary := two_blocks\<rparr>) = bytes small_heap" by simp
  have e: "small_heap\<lparr>secondary := two_blocks,
             bytes := internal_memcpy (bytes small_heap) 1052672 69632 (Min_uptr 4194304 4096)\<rparr>
           = (small_heap\<lparr>secondary := two_blocks\<rparr>)\<lparr>bytes :=
               internal_memcpy (bytes small_heap) 1052672 69632 (Min_uptr 4194304 4096)\<rparr>"
    by simp
  note r = combined_reallocate [where ops = bump_primary and MmapOrDie = "\<lambda>n. 1048576"
      and st = small_heap and cache = Cache_Init and p = 69632 and new_size = 4194304
      and alignment = 8 and old_size = 4096 and new_p = 1052672 and ?cache1.0 = Cache_Init
      and ?st1.0 = "small_heap\<lparr>secondary := two_blocks\<rparr>"]
  have copied: "\<forall>i<4096. internal_memcpy (bytes small_heap) 1052672 69632
      (Min_uptr 4194304 4096) (1052672 + of_nat i) = bytes small_heap (69632 + of_nat i)"
    using r one_block_PointerIsMine one_block_size second_block_Allocate regions_apart
    unfolding b m by simp
  have last: "internal_memcpy (bytes small_heap) 1052672 69632 (Min_uptr 4194304 4096)
      (1052672 + of_nat 4095) = bytes small_heap (69632 + of_nat 4095)"
    using copied by (rule allE [of _ 4095]) simp
  have run: "Combined_Reallocate bump_primary (\<lambda>n. 1048576) small_heap Cache_Init 69632 0 8 =
     Some (Inr (0, Cache_Init,
       small_heap\<lparr>secondary := UnmapOrDie (one_block\<lparr>list_head := 0\<rparr>) 65536 8192\<rparr>)) \<and>
   Combined_Reallocate bump_primary (\<lambda>n. 1048576) small_heap Cache_Init 69632 4194304 8 =
     Some (Inr (1052672, Cache_Init,
       small_heap\<lparr>secondary :=
         UnmapOrDie (two_blocks\<lparr>headers := (headers two_blocks)(1048576 \<mapsto>
             \<lparr>map_beg = 1048576, map_size = 4198400, size' = 4194304, next' = 0, prev = 0\<rparr>)\<rparr>)
           65536 8192,
         bytes := internal_memcpy (bytes small_heap) 1052672 69632 (Min_uptr 4194304 4096)\<rparr>))"
    using r one_block_PointerIsMine one_block_size second_block_Allocate
    unfolding b m
    by (simp add: one_block_Deallocate two_blocks_Deallocate)
  show ?thesis
    using run last m one_block_PointerIsMine one_block_size second_block_Allocate
    by (simp only: simp_thms) simp
qed

theorem combined_reallocate_counterexample:
  "(69632::uptr) \<noteq> 0 \<and> (18446744073709551615::uptr) \<noteq> 0 \<and>
   Combined_PointerIsMine bump_primary small_heap 69632 = Some (Inr True) \<and>
   Combined_GetActuallyAllocatedSize bump_primary small_heap 69632 = Inr 4096 \<and>
   Min_uptr 18446744073709551615 4096 = 4096 \<and>
   Combined_Reallocate bump_primary map_at_megabyte small_heap Cache_Init 69632
       18446744073709551615 8 =
     Some (Inr (0, Cache_Init,
       small_heap\<lparr>secondary := UnmapOrDie (one_block\<lparr>list_head := 0\<rparr>) 65536 8192\<rparr>)) \<and>
   bytes (small_heap\<lparr>secondary := UnmapOrDie (one_block\<lparr>list_head := 0\<rparr>) 65536 8192\<rparr>)
     = bytes small_heap"
  by (simp add: one_block_PointerIsMine one_block_size Combined_Reallocate_def
      Combined_Allocate_def one_block_Deallocate Min_uptr_def)

text \<open>
  Claim C10. When \<open>Reallocate\<close> is called with a pointer the allocator owns and a new
  size other than 0, and the allocation of the new region returns the null pointer, the
  old region is deallocated all the same and \<open>Reallocate\<close> returns the null pointer: the
  deallocation runs on the state exactly as \<open>Allocate\<close> left it, no byte having been
  copied.
\<close>

theorem reallocate_failed_allocation:
  assumes "p \<noteq> 0" and "new_size \<noteq> 0"
    and "Combined_PointerIsMine ops st p = Some (Inr True)"
    and "Combined_GetActuallyAllocatedSize ops st p = Inr old_size"
    and "Combined_Allocate ops MmapOrDie st cache new_size alignment False = Inr (0, cache1, st1)"
  shows "Combined_Reallocate ops MmapOrDie st cache p new_size alignment =
         Some (case Combined_Deallocate ops st1 cache1 p of
                 Inl e \<Rightarrow> Inl e
               | Inr (cache2, st3) \<Rightarrow> Inr (0, cache2, st3))"
  using assms by (simp add: Combined_Reallocate_def)

theorem reallocate_failed_allocation_witness:
  "(69632::uptr) \<noteq> 0 \<and> (18446744073709551615::uptr) \<noteq> 0 \<and>
   Combined_PointerIsMine bump_primary small_heap 69632 = Some (Inr True) \<and>
   Combined_GetActuallyAllocatedSize bump_primary small_heap 69632 = Inr 4096 \<and>
   Combined_Allocate bump_primary (\<lambda>n. 1048576) small_heap Cache_Init 18446744073709551615 8 False
     = Inr (0, Cache_Init, small_heap) \<and>
   Combined_Reallocate bump_primary (\<lambda>n. 1048576) small_heap Cache_Init 69632
       18446744073709551615 8 =
     Some (Inr (0, Cache_Init,
       small_heap\<lparr>secondary := UnmapOrDie (one_block\<lparr>list_head := 0\<rparr>) 65536 8192\<rparr>))"
proof -
  have a: "(69632::uptr) \<noteq> 0" and b: "(18446744073709551615::uptr) \<noteq> 0" by simp_all
  have al: "Combined_Allocate bump_primary (\<lambda>n. 1048576) small_heap Cache_Init
              18446744073709551615 8 False = Inr (0, Cache_Init, small_heap)"
    by (simp add: Combined_Allocate_def)
  show ?thesis
    using reallocate_failed_allocation [OF a b one_block_PointerIsMine one_block_size al]
      one_block_PointerIsMine one_block_size al
    by (simp add: one_block_Deallocate)
qed

end
